theory Spec2Isabelle
  imports Main "HOL-Library.Sublist"
begin

section \<open>The tree diagram generator of dtdl\_tree\_generator.py\<close>

text \<open>
  The development embeds the two core operations of \<^verbatim>\<open>TreeGenerator\<close>:
  \<^verbatim>\<open>build_from_connections\<close>, which turns a list of source/target connections into
  an object graph of \<^verbatim>\<open>TreeNode\<close>s, and \<^verbatim>\<open>_render_node_html\<close>, which walks that
  graph recursively and emits nested markup.

  Modelling decisions.
  \<^item> Identifiers are Python \<^verbatim>\<open>str\<close> values as the annotation of \<^verbatim>\<open>TreeNode.__init__\<close>
    says; a string is the list of the bytes of its UTF-8 encoding, on which equality and
    the substring test with an ASCII keyword agree with those of Python.
  \<^item> \<^verbatim>\<open>TreeNode\<close> objects are mutable and shared. The generator keeps exactly one object
    per identifier in \<^verbatim>\<open>self.nodes\<close>, so the store maps an identifier to the state of
    its object and a reference to a node is its identifier. The generator is the fresh
    one that \<^verbatim>\<open>__init__\<close> leaves behind (no nodes, no roots).
  \<^item> Every \<^verbatim>\<open>raise\<close> of the Python run time that the code can hit is a value of
    \<open>error\<close>; a function that can raise returns \<open>error + 'a\<close>.
  \<^item> The recursion of \<^verbatim>\<open>_render_node_html\<close> follows child references and need not
    end; it takes fuel (the depth of the call stack still available) and returns
    \<open>None\<close> when the fuel is used up before the walk returns.
  \<^item> What Python leaves open or computes in floating point is a parameter, gathered in
    the record \<open>python\<close>: the iteration order of a \<^verbatim>\<open>set\<close>, \<^verbatim>\<open>str()\<close> of a value that is
    not a string, the fixed-point format \<^verbatim>\<open>.1f\<close> of a number, and \<^verbatim>\<open>str.lower\<close>, which
    follows the Unicode case mapping (it turns the Kelvin sign U+212A into the letter k,
    for one).
\<close>

subsection \<open>Values, dictionaries, errors\<close>

type_synonym ident = string

text \<open>JSON-like values held by twins and telemetry snapshots. A float is carried as
  mantissa and exponent; the model never computes with it.\<close>

datatype pyval =
    VNone
  | VBool bool
  | VInt int
  | VFloat int int
  | VStr string
  | VList "pyval list"
  | VDict "(string \<times> pyval) list"

text \<open>A \<^verbatim>\<open>dict\<close> with string keys, in insertion order.\<close>

type_synonym pydict = "(string \<times> pyval) list"

datatype error =
    KeyError string
  | IndexError
  | ValueError
  | TypeError
  | OverflowError

record python =
  set_iter :: "ident list \<Rightarrow> ident list"
  str_of :: "pyval \<Rightarrow> string"
  format_1f :: "pyval \<Rightarrow> error + string"
  str_lower :: "string \<Rightarrow> string"

text \<open>A Python \<^verbatim>\<open>set\<close> is kept as the list of its elements in the order they were first
  added; \<open>set_iter py\<close> turns it into the order in which a \<^verbatim>\<open>for\<close> loop visits it.
  Iteration visits every element exactly once.\<close>

definition set_add :: "ident \<Rightarrow> ident list \<Rightarrow> ident list" where
  "set_add x xs = (if x \<in> set xs then xs else xs @ [x])"

definition set_semantics :: "python \<Rightarrow> bool" where
  "set_semantics py \<longleftrightarrow>
     (\<forall>xs. distinct xs \<longrightarrow> distinct (set_iter py xs) \<and> set (set_iter py xs) = set xs)"

text \<open>\<^verbatim>\<open>f"{value}"\<close>: a string is inserted as it is.\<close>

definition py_str :: "python \<Rightarrow> pyval \<Rightarrow> string" where
  "py_str py v = (case v of VStr s \<Rightarrow> s | _ \<Rightarrow> str_of py v)"

text \<open>\<^verbatim>\<open>f"{value:.1f}"\<close>: \<^verbatim>\<open>int\<close>, \<^verbatim>\<open>float\<close> and \<^verbatim>\<open>bool\<close> (a subclass of \<^verbatim>\<open>int\<close>)
  accept the format code; \<^verbatim>\<open>str\<close> raises \<^verbatim>\<open>ValueError\<close>; \<^verbatim>\<open>None\<close>, lists and dicts raise
  \<^verbatim>\<open>TypeError\<close>.\<close>

definition numeric :: "pyval \<Rightarrow> bool" where
  "numeric v = (case v of VBool _ \<Rightarrow> True | VInt _ \<Rightarrow> True | VFloat _ _ \<Rightarrow> True | _ \<Rightarrow> False)"

definition py_format_1f :: "python \<Rightarrow> pyval \<Rightarrow> error + string" where
  "py_format_1f py v =
     (case v of
        VStr _ \<Rightarrow> Inl ValueError
      | VNone \<Rightarrow> Inl TypeError
      | VList _ \<Rightarrow> Inl TypeError
      | VDict _ \<Rightarrow> Inl TypeError
      | _ \<Rightarrow> format_1f py v)"

text \<open>Truth value of an object in a condition.\<close>

definition truthy :: "pyval \<Rightarrow> bool" where
  "truthy v =
     (case v of
        VNone \<Rightarrow> False
      | VBool b \<Rightarrow> b
      | VInt i \<Rightarrow> i \<noteq> 0
      | VFloat m e \<Rightarrow> m \<noteq> 0
      | VStr s \<Rightarrow> s \<noteq> []
      | VList xs \<Rightarrow> xs \<noteq> []
      | VDict kvs \<Rightarrow> kvs \<noteq> [])"

text \<open>\<^verbatim>\<open>d.get(key, default)\<close> on an insertion-ordered dictionary.\<close>

definition dict_get :: "pydict \<Rightarrow> string \<Rightarrow> pyval \<Rightarrow> pyval" where
  "dict_get d k dflt = (case map_of d k of None \<Rightarrow> dflt | Some v \<Rightarrow> v)"

subsection \<open>Strings\<close>

text \<open>The operator \<^verbatim>\<open>sub in s\<close> on strings.\<close>

fun str_in :: "string \<Rightarrow> string \<Rightarrow> bool" where
  "str_in sub [] = (sub = [])"
| "str_in sub (c # cs) = (prefix sub (c # cs) \<or> str_in sub cs)"

text \<open>\<^verbatim>\<open>sep.join(items)\<close>.\<close>

fun join :: "string \<Rightarrow> string list \<Rightarrow> string" where
  "join sep [] = []"
| "join sep [x] = x"
| "join sep (x # y # ys) = x @ sep @ join sep (y # ys)"

definition nl :: string where
  "nl = [CHR 0x0A]"

subsection \<open>The flow model read by the generator\<close>

text \<open>A twin instance, as far as the generator reads it: \<^verbatim>\<open>data["$metadata"]["$model"]\<close>
  (\<open>None\<close> when either key is missing) and \<^verbatim>\<open>data["properties"]\<close> (empty when
  missing). \<open>empty_twin\<close> is the dictionary \<^verbatim>\<open>{}\<close>.\<close>

record twin =
  model :: "string option"
  properties :: pydict

definition empty_twin :: twin where
  "empty_twin = \<lparr>model = None, properties = []\<rparr>"

text \<open>A telemetry snapshot, as far as the generator reads it: its \<^verbatim>\<open>"data"\<close> entry,
  \<open>None\<close> when the key is missing.\<close>

type_synonym snapshot = "pydict option"

text \<open>\<open>models\<close> is \<^verbatim>\<open>flow_model.parser.models\<close>, reduced to the \<^verbatim>\<open>display_name\<close> of each
  model, the only attribute the generator reads.\<close>

record flow_model =
  models :: "string \<rightharpoonup> string"
  twin_instances :: "ident \<rightharpoonup> twin"
  telemetry_data :: "ident \<rightharpoonup> snapshot list"

subsection \<open>TreeNode\<close>

record tree_node =
  nid :: ident
  data :: twin
  children :: "ident list"
  parent :: "ident option"

type_synonym store = "ident \<rightharpoonup> tree_node"

definition TreeNode :: "ident \<Rightarrow> twin \<Rightarrow> tree_node" where
  "TreeNode i d = \<lparr>nid = i, data = d, children = [], parent = None\<rparr>"

text \<open>\<^verbatim>\<open>self.add_child(child)\<close> with \<open>self\<close> the object of \<open>p\<close> and \<open>child\<close> the object of
  \<open>c\<close>: first \<^verbatim>\<open>child.parent = self\<close>, then \<^verbatim>\<open>self.children.append(child)\<close>. The two
  objects may be the same one.\<close>

definition add_child :: "ident \<Rightarrow> ident \<Rightarrow> store \<Rightarrow> store" where
  "add_child p c st =
     (let st1 = (case st c of None \<Rightarrow> st | Some child \<Rightarrow> st(c \<mapsto> child\<lparr>parent := Some p\<rparr>))
      in case st1 p of
           None \<Rightarrow> st1
         | Some self \<Rightarrow> st1(p \<mapsto> self\<lparr>children := children self @ [c]\<rparr>))"

subsection \<open>TreeGenerator.build\_from\_connections\<close>

text \<open>A connection is a dictionary; \<^verbatim>\<open>conn["source"]\<close> raises \<^verbatim>\<open>KeyError\<close> when the key
  is missing.\<close>

type_synonym connection = "string \<rightharpoonup> ident"

definition conn_get :: "connection \<Rightarrow> string \<Rightarrow> error + ident" where
  "conn_get conn k = (case conn k of None \<Rightarrow> Inl (KeyError k) | Some v \<Rightarrow> Inr v)"

record tree_generator =
  nodes :: store
  roots :: "ident list"

text \<open>First loop: \<^verbatim>\<open>all_ids.add(conn["source"]); all_ids.add(conn["target"])\<close>.\<close>

fun collect_ids :: "connection list \<Rightarrow> ident list \<Rightarrow> error + ident list" where
  "collect_ids [] all_ids = Inr all_ids"
| "collect_ids (conn # conns) all_ids =
     (case conn_get conn ''source'' of
        Inl e \<Rightarrow> Inl e
      | Inr source_id \<Rightarrow>
          (case conn_get conn ''target'' of
             Inl e \<Rightarrow> Inl e
           | Inr target_id \<Rightarrow> collect_ids conns (set_add target_id (set_add source_id all_ids))))"

text \<open>Second loop: one \<^verbatim>\<open>TreeNode\<close> per identifier, with the twin of that identifier or
  \<^verbatim>\<open>{}\<close>. (\<^verbatim>\<open>data or {}\<close> in the constructor replaces an empty dictionary by an empty
  dictionary.)\<close>

definition twin_get :: "flow_model \<Rightarrow> ident \<Rightarrow> twin" where
  "twin_get fm node_id =
     (case twin_instances fm node_id of None \<Rightarrow> empty_twin | Some twin_data \<Rightarrow> twin_data)"

fun create_nodes :: "flow_model \<Rightarrow> ident list \<Rightarrow> store \<Rightarrow> store" where
  "create_nodes fm [] st = st"
| "create_nodes fm (node_id # ids) st =
     create_nodes fm ids (st(node_id \<mapsto> TreeNode node_id (twin_get fm node_id)))"

text \<open>Third loop: link the target under the source and remember the target in
  \<^verbatim>\<open>children_ids\<close>.\<close>

fun link_nodes :: "connection list \<Rightarrow> store \<Rightarrow> ident set \<Rightarrow> error + store \<times> ident set" where
  "link_nodes [] st children_ids = Inr (st, children_ids)"
| "link_nodes (conn # conns) st children_ids =
     (case conn_get conn ''source'' of
        Inl e \<Rightarrow> Inl e
      | Inr source_id \<Rightarrow>
          (case conn_get conn ''target'' of
             Inl e \<Rightarrow> Inl e
           | Inr target_id \<Rightarrow>
               if source_id \<in> dom st \<and> target_id \<in> dom st
               then link_nodes conns (add_child source_id target_id st)
                      (insert target_id children_ids)
               else link_nodes conns st children_ids))"

text \<open>The whole method on a fresh generator. \<open>keys\<close> is the order in which the loop over
  \<^verbatim>\<open>all_ids\<close> inserts into \<^verbatim>\<open>self.nodes\<close>, which is the order \<^verbatim>\<open>self.nodes.items()\<close>
  yields afterwards.\<close>

definition build_from_connections ::
  "python \<Rightarrow> flow_model \<Rightarrow> connection list \<Rightarrow> error + tree_generator" where
  "build_from_connections py fm connections =
     (case collect_ids connections [] of
        Inl e \<Rightarrow> Inl e
      | Inr all_ids \<Rightarrow>
          (let keys = set_iter py all_ids;
               st = create_nodes fm keys Map.empty
           in case link_nodes connections st {} of
                Inl e \<Rightarrow> Inl e
              | Inr (st', children_ids) \<Rightarrow>
                  Inr \<lparr>nodes = st', roots = filter (\<lambda>node_id. node_id \<notin> children_ids) keys\<rparr>))"

text \<open>An edge \<open>(s, t)\<close> written as the dictionary \<^verbatim>\<open>{"source": s, "target": t}\<close>.\<close>

definition edge :: "ident \<times> ident \<Rightarrow> connection" where
  "edge e = [''source'' \<mapsto> fst e, ''target'' \<mapsto> snd e]"

subsection \<open>TreeGenerator.\_get\_unit\<close>

text \<open>The degree sign and the status icons are outside ASCII; they are written as their
  UTF-8 bytes.\<close>

definition degree_C :: string where
  "degree_C = [CHR 0xC2, CHR 0xB0, CHR ''C'']"

definition get_unit :: "python \<Rightarrow> string \<Rightarrow> string" where
  "get_unit py key =
     (let key_lower = str_lower py key in
      if str_in ''temp'' key_lower then degree_C
      else if str_in ''current'' key_lower then ''A''
      else if str_in ''pressure'' key_lower then ''bar''
      else if str_in ''flow'' key_lower then ''L/s''
      else if str_in ''level'' key_lower then ''%''
      else if str_in ''vibration'' key_lower then ''Hz''
      else [])"

subsection \<open>TreeGenerator.\_render\_node\_html\<close>

text \<open>\<^verbatim>\<open>model_id\<close>, \<^verbatim>\<open>model\<close> and \<^verbatim>\<open>model_name\<close>.\<close>

definition model_id_of :: "tree_node \<Rightarrow> string" where
  "model_id_of node = (case model (data node) of None \<Rightarrow> [] | Some m \<Rightarrow> m)"

definition model_name_of :: "flow_model \<Rightarrow> tree_node \<Rightarrow> string" where
  "model_name_of fm node =
     (case models fm (model_id_of node) of
        None \<Rightarrow> ''Unknown''
      | Some display_name \<Rightarrow> display_name)"

text \<open>\<^verbatim>\<open>telemetry\<close>: the \<^verbatim>\<open>"data"\<close> of the last snapshot stored for the node. Index
  \<^verbatim>\<open>[-1]\<close> of an empty list raises \<^verbatim>\<open>IndexError\<close>.\<close>

definition latest_telemetry :: "flow_model \<Rightarrow> tree_node \<Rightarrow> error + pydict" where
  "latest_telemetry fm node =
     (case telemetry_data fm (nid node) of
        None \<Rightarrow> Inr []
      | Some snapshots \<Rightarrow>
          if snapshots = [] then Inl IndexError
          else Inr (case last snapshots of None \<Rightarrow> [] | Some d \<Rightarrow> d))"

text \<open>The loop over \<^verbatim>\<open>properties.items()\<close>.\<close>

fun property_items :: "python \<Rightarrow> pydict \<Rightarrow> string list" where
  "property_items py [] = []"
| "property_items py ((key, value) # rest) =
     (if key \<noteq> ''status''
      then (key @ '': '' @ py_str py value) # property_items py rest
      else property_items py rest)"

text \<open>The loop over \<^verbatim>\<open>list(telemetry.items())[:3]\<close>; the caller passes the first three
  entries. The format of a value may raise, which ends the loop and the rendering.\<close>

fun telemetry_items :: "python \<Rightarrow> pydict \<Rightarrow> error + string list" where
  "telemetry_items py [] = Inr []"
| "telemetry_items py ((key, value) # rest) =
     (let unit = get_unit py key in
      case py_format_1f py value of
        Inl e \<Rightarrow> Inl e
      | Inr formatted \<Rightarrow>
          (case telemetry_items py rest of
             Inl e \<Rightarrow> Inl e
           | Inr tel_display \<Rightarrow> Inr ((key @ '': '' @ formatted @ unit) # tel_display)))"

text \<open>\<^verbatim>\<open>tooltip_items\<close> after both loops.\<close>

definition tooltip_items :: "python \<Rightarrow> pydict \<Rightarrow> pydict \<Rightarrow> error + string list" where
  "tooltip_items py props telemetry =
     (case telemetry_items py (take 3 telemetry) of
        Inl e \<Rightarrow> Inl e
      | Inr tel_display \<Rightarrow> Inr (property_items py props @ tel_display))"

text \<open>The separator is a backslash followed by the letter A.\<close>

definition tooltip_sep :: string where
  "tooltip_sep = [CHR 0x5C, CHR ''A'']"

definition tooltip_of :: "string list \<Rightarrow> string \<Rightarrow> string" where
  "tooltip_of items model_name = (if items \<noteq> [] then join tooltip_sep items else model_name)"

text \<open>\<^verbatim>\<open>node_class\<close>.\<close>

definition node_class_of :: "python \<Rightarrow> ident \<Rightarrow> pyval \<Rightarrow> string" where
  "node_class_of py i status =
     (let node_class = ''node'' in
      if str_in ''pump'' (str_lower py i) then
        (let node_class = node_class @ '' pump-node'' in
         if status = VStr ''running'' then node_class @ '' running''
         else if status = VStr ''stopped'' then node_class @ '' stopped''
         else node_class)
      else if str_in ''tank'' (str_lower py i) then node_class @ '' tank-node''
      else node_class)"

definition status_icon_of :: "pyval \<Rightarrow> string" where
  "status_icon_of status =
     (if status = VStr ''running'' then [CHR 0xE2, CHR 0x96, CHR 0xB6]
      else if status = VStr ''stopped'' then [CHR 0xE2, CHR 0x8F, CHR 0xB8]
      else [CHR 0xE2, CHR 0x9A, CHR 0xA0])"

definition dq :: string where
  "dq = [CHR 0x22]"

definition sq :: string where
  "sq = [CHR 0x27]"

text \<open>The markup of the node itself, up to and including the closing tag of the
  anchor.\<close>

definition node_markup ::
  "python \<Rightarrow> ident \<Rightarrow> string \<Rightarrow> string \<Rightarrow> string \<Rightarrow> pyval \<Rightarrow> string" where
  "node_markup py i node_class tooltip model_name status =
     (let html = ''<li>'' @ nl;
          html = html @ ''  <a href='' @ dq @ ''#'' @ dq @ '' class='' @ dq @ node_class @ dq
                   @ '' data-id='' @ dq @ i @ dq @ '' data-tooltip='' @ dq @ tooltip @ dq
                   @ '' onclick='' @ dq @ ''showDetails('' @ sq @ i @ sq @ ''); return false;''
                   @ dq @ ''>'' @ nl;
          html = html @ ''    <span class='' @ dq @ ''node-title'' @ dq @ ''>'' @ i
                   @ ''</span>'' @ nl;
          html = html @ ''    <span class='' @ dq @ ''node-type'' @ dq @ ''>'' @ model_name
                   @ ''</span>'' @ nl;
          html = (if truthy status
                  then html @ ''    <span class='' @ dq @ ''status-indicator'' @ dq @ ''>''
                         @ status_icon_of status @ '' '' @ py_str py status @ ''</span>'' @ nl
                  else html)
      in html @ ''  </a>'' @ nl)"

text \<open>The body of \<^verbatim>\<open>_render_node_html\<close> before the loop over the children.\<close>

definition render_open :: "python \<Rightarrow> flow_model \<Rightarrow> tree_node \<Rightarrow> error + string" where
  "render_open py fm node =
     (let model_name = model_name_of fm node in
      case latest_telemetry fm node of
        Inl e \<Rightarrow> Inl e
      | Inr telemetry \<Rightarrow>
          (let props = properties (data node);
               status = dict_get props ''status'' (VStr [])
           in case tooltip_items py props telemetry of
                Inl e \<Rightarrow> Inl e
              | Inr items \<Rightarrow>
                  Inr (node_markup py (nid node) (node_class_of py (nid node) status)
                         (tooltip_of items model_name) model_name status)))"

text \<open>A loop \<^verbatim>\<open>for x in xs: html += render(x)\<close>. The first call that raises, or does not
  return, ends it.\<close>

fun render_each ::
  "(ident \<Rightarrow> (error + string) option) \<Rightarrow> ident list \<Rightarrow> string \<Rightarrow> (error + string) option" where
  "render_each render [] html = Some (Inr html)"
| "render_each render (x # xs) html =
     (case render x of
        None \<Rightarrow> None
      | Some (Inl e) \<Rightarrow> Some (Inl e)
      | Some (Inr h) \<Rightarrow> render_each render xs (html @ h))"

text \<open>The recursive method. The first argument is the fuel: the number of nested calls
  still allowed. A reference is looked up in the store; a reference to no object does
  not occur in Python and makes the walk stuck.\<close>

fun render_node_html ::
  "nat \<Rightarrow> python \<Rightarrow> flow_model \<Rightarrow> store \<Rightarrow> ident \<Rightarrow> (error + string) option" where
  "render_node_html 0 py fm st r = None"
| "render_node_html (Suc fuel) py fm st r =
     (case st r of
        None \<Rightarrow> None
      | Some node \<Rightarrow>
          (case render_open py fm node of
             Inl e \<Rightarrow> Some (Inl e)
           | Inr html \<Rightarrow>
               if children node \<noteq> [] then
                 (case render_each (\<lambda>child. render_node_html fuel py fm st child)
                         (children node) (html @ ''  <ul>'' @ nl) of
                    None \<Rightarrow> None
                  | Some (Inl e) \<Rightarrow> Some (Inl e)
                  | Some (Inr html') \<Rightarrow> Some (Inr (html' @ ''  </ul>'' @ nl @ ''</li>'' @ nl)))
               else Some (Inr (html @ ''</li>'' @ nl))))"

text \<open>The first loop of \<^verbatim>\<open>generate_tree_html\<close>, which renders the roots one after the
  other into \<^verbatim>\<open>tree_html\<close>.\<close>

definition tree_html ::
  "nat \<Rightarrow> python \<Rightarrow> flow_model \<Rightarrow> tree_generator \<Rightarrow> (error + string) option" where
  "tree_html fuel py fm g =
     render_each (\<lambda>root. render_node_html fuel py fm (nodes g) root) (roots g) []"

section \<open>Notions the properties are stated with\<close>

subsection \<open>Edge lists\<close>

type_synonym edges = "(ident \<times> ident) list"

text \<open>The node universe of an edge list, the targets of the edges leaving \<open>s\<close> in list
  order, and the source of the last edge entering \<open>t\<close>.\<close>

definition ids_of :: "edges \<Rightarrow> ident set" where
  "ids_of E = fst ` set E \<union> snd ` set E"

definition targets_of :: "edges \<Rightarrow> ident \<Rightarrow> ident list" where
  "targets_of E s = map snd (filter (\<lambda>e. fst e = s) E)"

definition last_source :: "edges \<Rightarrow> ident \<Rightarrow> ident option" where
  "last_source E t =
     (case filter (\<lambda>e. snd e = t) E of [] \<Rightarrow> None | e # es \<Rightarrow> Some (fst (last (e # es))))"

text \<open>The state of the node of \<open>i\<close> that the properties below establish for a build.\<close>

definition built_node :: "flow_model \<Rightarrow> edges \<Rightarrow> ident \<Rightarrow> tree_node" where
  "built_node fm E i =
     \<lparr>nid = i, data = twin_get fm i, children = targets_of E i, parent = last_source E i\<rparr>"

subsection \<open>Example data\<close>

text \<open>Lower-casing of the ASCII letters, every other byte kept. On a string of ASCII
  characters this is what \<^verbatim>\<open>str.lower\<close> does; the examples use no other strings.\<close>

definition ascii_lower_char :: "char \<Rightarrow> char" where
  "ascii_lower_char c =
     (case map_of (zip ''ABCDEFGHIJKLMNOPQRSTUVWXYZ'' ''abcdefghijklmnopqrstuvwxyz'') c of
        None \<Rightarrow> c
      | Some l \<Rightarrow> l)"

definition ascii_lower :: "string \<Rightarrow> string" where
  "ascii_lower s = map ascii_lower_char s"

text \<open>What \<^verbatim>\<open>str.lower\<close> guarantees on a string of ASCII characters.\<close>

definition lower_semantics :: "python \<Rightarrow> bool" where
  "lower_semantics py \<longleftrightarrow>
     (\<forall>s. (\<forall>c \<in> set s. (of_char c :: nat) < 128) \<longrightarrow> str_lower py s = ascii_lower s)"

text \<open>A run time whose sets iterate in insertion order and whose strings are
  lower-cased as above, and a flow model with no model, no twin and no telemetry.\<close>

definition py_example :: python where
  "py_example =
     \<lparr>set_iter = (\<lambda>xs. xs), str_of = (\<lambda>v. ''?''), format_1f = (\<lambda>v. Inr ''0.0''),
      str_lower = ascii_lower\<rparr>"

definition fm_empty :: flow_model where
  "fm_empty = \<lparr>models = Map.empty, twin_instances = Map.empty, telemetry_data = Map.empty\<rparr>"

subsection \<open>Walks through the forest\<close>

text \<open>The parent/child relation of a store, and the edge lists whose relation has no
  cycle through a node that can be reached from a root (an identifier of the list that
  no edge enters).\<close>

definition child_rel :: "store \<Rightarrow> (ident \<times> ident) set" where
  "child_rel st = {(p, c). \<exists>n. st p = Some n \<and> c \<in> set (children n)}"

definition reachable_acyclic :: "edges \<Rightarrow> bool" where
  "reachable_acyclic E \<longleftrightarrow>
     (\<forall>r x. r \<in> ids_of E \<and> r \<notin> snd ` set E \<and> (r, x) \<in> (set E)\<^sup>* \<longrightarrow> (x, x) \<notin> (set E)\<^sup>+)"

text \<open>An edge list with a cycle below the root R.\<close>

definition cyclic_edges :: edges where
  "cyclic_edges = [(''R'', ''A''), (''A'', ''B''), (''B'', ''A'')]"

text \<open>The cost of a walk: the number of calls of \<^verbatim>\<open>_render_node_html\<close> it starts. The
  functions follow the recursion of \<open>render_each\<close> and \<open>render_node_html\<close>: a call counts
  for itself and for the calls on the children it reaches before one of them raises.\<close>

fun T_render_each ::
  "(ident \<Rightarrow> (error + string) option) \<Rightarrow> (ident \<Rightarrow> nat) \<Rightarrow> ident list \<Rightarrow> nat" where
  "T_render_each render T [] = 0"
| "T_render_each render T (x # xs) =
     T x + (case render x of Some (Inr h) \<Rightarrow> T_render_each render T xs | _ \<Rightarrow> 0)"

fun T_render_node_html :: "nat \<Rightarrow> python \<Rightarrow> flow_model \<Rightarrow> store \<Rightarrow> ident \<Rightarrow> nat" where
  "T_render_node_html 0 py fm st r = 0"
| "T_render_node_html (Suc fuel) py fm st r =
     1 + (case st r of
            None \<Rightarrow> 0
          | Some node \<Rightarrow>
              (case render_open py fm node of
                 Inl e \<Rightarrow> 0
               | Inr html \<Rightarrow>
                   T_render_each (\<lambda>child. render_node_html fuel py fm st child)
                     (\<lambda>child. T_render_node_html fuel py fm st child) (children node)))"

definition T_tree_html :: "nat \<Rightarrow> python \<Rightarrow> flow_model \<Rightarrow> tree_generator \<Rightarrow> nat" where
  "T_tree_html fuel py fm g =
     T_render_each (\<lambda>root. render_node_html fuel py fm (nodes g) root)
       (\<lambda>root. T_render_node_html fuel py fm (nodes g) root) (roots g)"

text \<open>The number of node occurrences below \<open>r\<close> down to a depth: \<open>r\<close> itself and, for
  every entry of its child sequence, the occurrences below that child. A node that is
  entered along two walks is counted twice.\<close>

fun occurrences :: "nat \<Rightarrow> store \<Rightarrow> ident \<Rightarrow> nat" where
  "occurrences 0 st r = 0"
| "occurrences (Suc depth) st r =
     1 + (case st r of
            None \<Rightarrow> 0
          | Some node \<Rightarrow> sum_list (map (\<lambda>c. occurrences depth st c) (children node)))"

definition forest_occurrences :: "nat \<Rightarrow> tree_generator \<Rightarrow> nat" where
  "forest_occurrences depth g = sum_list (map (\<lambda>r. occurrences depth (nodes g) r) (roots g))"

definition node_count :: "edges \<Rightarrow> nat" where
  "node_count E = length (remdups (map fst E @ map snd E))"

subsection \<open>Tooltips, class tags and telemetry values\<close>

text \<open>The keyword/unit table of \<^verbatim>\<open>_get_unit\<close> as data, searched in order: the unit of
  the first keyword contained in the lower-cased field name, the empty string when
  there is none.\<close>

definition unit_table :: "(string \<times> string) list" where
  "unit_table =
     [(''temp'', degree_C), (''current'', ''A''), (''pressure'', ''bar''), (''flow'', ''L/s''),
      (''level'', ''%''), (''vibration'', ''Hz'')]"

fun first_match :: "python \<Rightarrow> (string \<times> string) list \<Rightarrow> string \<Rightarrow> string" where
  "first_match py [] key = []"
| "first_match py ((keyword, unit) # table) key =
     (if str_in keyword (str_lower py key) then unit else first_match py table key)"

text \<open>The properties other than \<^verbatim>\<open>"status"\<close>.\<close>

definition non_status :: "pydict \<Rightarrow> pydict" where
  "non_status props = filter (\<lambda>(key, value). key \<noteq> ''status'') props"

text \<open>The tags of a class attribute: its words between spaces.\<close>

fun split_spaces :: "string \<Rightarrow> string \<Rightarrow> string list" where
  "split_spaces [] cur = (if cur = [] then [] else [cur])"
| "split_spaces (c # cs) cur =
     (if c = CHR '' '' then (if cur = [] then split_spaces cs [] else cur # split_spaces cs [])
      else split_spaces cs (cur @ [c]))"

definition class_tags :: "string \<Rightarrow> string set" where
  "class_tags node_class = set (split_spaces node_class [])"

text \<open>Every value among the first three entries of a telemetry map is a number.\<close>

definition numeric_telemetry :: "pydict \<Rightarrow> bool" where
  "numeric_telemetry telemetry = list_all (\<lambda>(key, value). numeric value) (take 3 telemetry)"

text \<open>The markup of a node with children: its own markup, then the list of the
  rendered children.\<close>

definition nested :: "string \<Rightarrow> string \<Rightarrow> string" where
  "nested html inner = html @ ''  <ul>'' @ nl @ inner @ ''  </ul>'' @ nl @ ''</li>'' @ nl"

subsection \<open>More example data\<close>


definition fm_bad :: flow_model where
  "fm_bad =
     \<lparr>models = Map.empty, twin_instances = Map.empty,
      telemetry_data = [''pump-001'' \<mapsto> [Some [(''motorTemperature'', VStr ''hot'')]]]\<rparr>"

definition fan_in :: "ident \<Rightarrow> ident \<Rightarrow> ident \<Rightarrow> edges" where
  "fan_in a b c = [(a, c), (b, c)]"

section \<open>Properties of build\_from\_connections\<close>

lemma set_semantics_example: "set_semantics py_example"
  by (simp add: set_semantics_def py_example_def)

lemma str_lower_example: "str_lower py_example = ascii_lower"
  by (simp add: py_example_def)

lemma conn_get_edge:
  "conn_get (edge e) ''source'' = Inr (fst e)" "conn_get (edge e) ''target'' = Inr (snd e)"
  by (simp_all add: conn_get_def edge_def)

lemma set_add_props:
  "set (set_add x xs) = insert x (set xs)" "distinct xs \<Longrightarrow> distinct (set_add x xs)"
  by (auto simp: set_add_def)

lemma collect_ids_edges:
  "\<exists>ids. collect_ids (map edge E) acc = Inr ids \<and> (distinct acc \<longrightarrow> distinct ids)
      \<and> set ids = set acc \<union> ids_of E"
proof (induction E arbitrary: acc)
  case Nil
  show ?case by (simp add: ids_of_def)
next
  case (Cons e E)
  obtain ids where "collect_ids (map edge E) (set_add (snd e) (set_add (fst e) acc)) = Inr ids"
     "distinct (set_add (snd e) (set_add (fst e) acc)) \<longrightarrow> distinct ids"
     "set ids = set (set_add (snd e) (set_add (fst e) acc)) \<union> ids_of E"
    using Cons.IH by blast
  then show ?case by (auto simp: set_add_props ids_of_def conn_get_edge)
qed

lemma create_nodes_apply:
  "create_nodes fm keys st i = (if i \<in> set keys then Some (TreeNode i (twin_get fm i)) else st i)"
  by (induction keys arbitrary: st) auto

lemma add_child_apply:
  assumes "st s \<noteq> None" "st t \<noteq> None" "st i = Some n"
  shows "add_child s t st i =
     Some (n\<lparr>children := children n @ (if i = s then [t] else []),
             parent := (if i = t then Some s else parent n)\<rparr>)"
  using assms by (auto simp: add_child_def Let_def split: option.splits)

lemma dom_add_child: "dom (add_child s t st) = dom st"
  by (auto simp: add_child_def Let_def split: option.splits if_splits)

lemma targets_of_Cons:
  "targets_of (e # E) i = (if fst e = i then [snd e] else []) @ targets_of E i"
  by (simp add: targets_of_def)

lemma last_source_Cons:
  "last_source (e # E) i =
     (case last_source E i of
        None \<Rightarrow> (if snd e = i then Some (fst e) else None)
      | Some p \<Rightarrow> Some p)"
  by (auto simp: last_source_def split: list.splits)

text \<open>The linking loop, started in a store that holds every identifier of the edges:
  each node gains the targets of its outgoing edges in list order, and its parent becomes
  the source of the last edge that enters it.\<close>

lemma link_nodes_edges:
  assumes "ids_of E \<subseteq> dom st"
  shows "\<exists>st'. link_nodes (map edge E) st C = Inr (st', C \<union> snd ` set E) \<and> dom st' = dom st \<and>
     (\<forall>i n. st i = Some n \<longrightarrow>
        st' i = Some (n\<lparr>children := children n @ targets_of E i,
                        parent := (case last_source E i of None \<Rightarrow> parent n | Some p \<Rightarrow> Some p)\<rparr>))"
  using assms
proof (induction E arbitrary: st C)
  case Nil
  show ?case by (simp add: targets_of_def last_source_def)
next
  case (Cons e E)
  let ?st1 = "add_child (fst e) (snd e) st"
  from Cons.prems have s: "fst e \<in> dom st" and t: "snd e \<in> dom st" and sub: "ids_of E \<subseteq> dom st"
    by (auto simp: ids_of_def)
  have d1: "dom ?st1 = dom st" by (rule dom_add_child)
  with sub have "ids_of E \<subseteq> dom ?st1" by simp
  from Cons.IH [OF this, of "insert (snd e) C"]
  obtain st' where
    run: "link_nodes (map edge E) ?st1 (insert (snd e) C) = Inr (st', insert (snd e) C \<union> snd ` set E)"
    and d': "dom st' = dom ?st1"
    and nodes': "\<And>i n. ?st1 i = Some n \<Longrightarrow>
        st' i = Some (n\<lparr>children := children n @ targets_of E i,
                        parent := (case last_source E i of None \<Rightarrow> parent n | Some p \<Rightarrow> Some p)\<rparr>)"
    by blast
  have "link_nodes (map edge (e # E)) st C = Inr (st', C \<union> snd ` set (e # E))"
    using run s t by (simp add: conn_get_edge)
  moreover have "dom st' = dom st" using d' d1 by simp
  moreover have "st' i = Some (n\<lparr>children := children n @ targets_of (e # E) i,
      parent := (case last_source (e # E) i of None \<Rightarrow> parent n | Some p \<Rightarrow> Some p)\<rparr>)"
    if "st i = Some n" for i n
  proof -
    have "?st1 i = Some (n\<lparr>children := children n @ (if i = fst e then [snd e] else []),
             parent := (if i = snd e then Some (fst e) else parent n)\<rparr>)"
      using s t that by (intro add_child_apply) auto
    from nodes' [OF this] show ?thesis
      by (auto simp: targets_of_Cons last_source_Cons split: option.splits)
  qed
  ultimately show ?case by blast
qed

text \<open>The whole build on an edge list: it returns, the store holds exactly the
  identifiers of the edges, and the roots are the identifiers that no edge enters.\<close>

lemma build_edges:
  assumes "set_semantics py"
  shows "\<exists>g. build_from_connections py fm (map edge E) = Inr g \<and>
     nodes g = (\<lambda>i. if i \<in> ids_of E then Some (built_node fm E i) else None) \<and>
     distinct (roots g) \<and> set (roots g) = ids_of E - snd ` set E"
proof -
  obtain ids where c: "collect_ids (map edge E) [] = Inr ids" and di: "distinct ids"
    and si: "set ids = ids_of E"
    using collect_ids_edges [of E "[]"] by auto
  let ?keys = "set_iter py ids"
  let ?st = "create_nodes fm ?keys Map.empty"
  let ?roots = "filter (\<lambda>i. i \<notin> snd ` set E) ?keys"
  from assms di si have dk: "distinct ?keys" and sk: "set ?keys = ids_of E"
    by (auto simp: set_semantics_def)
  have st: "?st i = (if i \<in> ids_of E then Some (TreeNode i (twin_get fm i)) else None)" for i
    by (simp add: create_nodes_apply sk)
  then have dom: "dom ?st = ids_of E" by (auto split: if_splits)
  then have "ids_of E \<subseteq> dom ?st" by simp
  from link_nodes_edges [OF this, of "{}"]
  obtain st' where l: "link_nodes (map edge E) ?st {} = Inr (st', snd ` set E)"
    and d': "dom st' = dom ?st"
    and n': "\<And>i n. ?st i = Some n \<Longrightarrow>
        st' i = Some (n\<lparr>children := children n @ targets_of E i,
                        parent := (case last_source E i of None \<Rightarrow> parent n | Some p \<Rightarrow> Some p)\<rparr>)"
    by auto
  have "st' i = (if i \<in> ids_of E then Some (built_node fm E i) else None)" for i
  proof (cases "i \<in> ids_of E")
    case True
    with st have "?st i = Some (TreeNode i (twin_get fm i))" by simp
    from n' [OF this] True show ?thesis
      by (simp add: built_node_def TreeNode_def split: option.splits)
  next
    case False
    with d' dom have "i \<notin> dom st'" by simp
    with False show ?thesis by auto
  qed
  then have "nodes \<lparr>nodes = st', roots = ?roots\<rparr> =
      (\<lambda>i. if i \<in> ids_of E then Some (built_node fm E i) else None)" by auto
  moreover have "build_from_connections py fm (map edge E) = Inr \<lparr>nodes = st', roots = ?roots\<rparr>"
    using c l by (simp add: build_from_connections_def Let_def)
  moreover have "distinct ?roots" using dk by simp
  moreover have "set ?roots = ids_of E - snd ` set E"
    using sk by auto
  ultimately show ?thesis
    by (intro exI [of _ "\<lparr>nodes = st', roots = ?roots\<rparr>"]) simp
qed

text \<open>
  Claim C1. For every edge list, the build returns a generator whose nodes are the
  identifiers of the edges and whose root sequence holds, once each, exactly the nodes
  whose identifier is the target of no edge. For the edges (A,B), (A,C), (C,D) between
  four different identifiers the root set is {A}, the children of A are [B, C] in that
  order, and the children of C are [D].
\<close>

theorem roots_iff_never_target:
  assumes "set_semantics py"
  shows "(\<exists>g. build_from_connections py fm (map edge E) = Inr g \<and>
            dom (nodes g) = ids_of E \<and> distinct (roots g) \<and>
            (\<forall>i. i \<in> set (roots g) \<longleftrightarrow> i \<in> dom (nodes g) \<and> i \<notin> snd ` set E)) \<and>
         (distinct [a, b, c, d] \<longrightarrow>
            (\<exists>g. build_from_connections py fm (map edge [(a, b), (a, c), (c, d)]) = Inr g \<and>
               set (roots g) = {a} \<and>
               map_option children (nodes g a) = Some [b, c] \<and>
               map_option children (nodes g c) = Some [d]))"
proof (intro conjI impI)
  obtain g where g: "build_from_connections py fm (map edge E) = Inr g"
    "nodes g = (\<lambda>i. if i \<in> ids_of E then Some (built_node fm E i) else None)"
    "distinct (roots g)" "set (roots g) = ids_of E - snd ` set E"
    using build_edges [OF assms, of fm E] by blast
  from g(2) have "dom (nodes g) = ids_of E" by (auto split: if_splits)
  with g show "\<exists>g. build_from_connections py fm (map edge E) = Inr g \<and>
            dom (nodes g) = ids_of E \<and> distinct (roots g) \<and>
            (\<forall>i. i \<in> set (roots g) \<longleftrightarrow> i \<in> dom (nodes g) \<and> i \<notin> snd ` set E)"
    by auto
next
  assume dist: "distinct [a, b, c, d]"
  let ?E = "[(a, b), (a, c), (c, d)]"
  obtain g where g: "build_from_connections py fm (map edge ?E) = Inr g"
    "nodes g = (\<lambda>i. if i \<in> ids_of ?E then Some (built_node fm ?E i) else None)"
    "set (roots g) = ids_of ?E - snd ` set ?E"
    using build_edges [OF assms, of fm ?E] by blast
  have "set (roots g) = {a}" unfolding g(3) using dist by (auto simp: ids_of_def)
  moreover have "map_option children (nodes g a) = Some [b, c]"
    unfolding g(2) using dist by (auto simp: ids_of_def built_node_def targets_of_def)
  moreover have "map_option children (nodes g c) = Some [d]"
    unfolding g(2) using dist by (auto simp: ids_of_def built_node_def targets_of_def)
  ultimately show "\<exists>g. build_from_connections py fm (map edge ?E) = Inr g \<and>
            set (roots g) = {a} \<and>
            map_option children (nodes g a) = Some [b, c] \<and>
            map_option children (nodes g c) = Some [d]"
    using g(1) by blast
qed

text \<open>The example of claim C1 on the example run time.\<close>

theorem roots_iff_never_target_witness:
  "\<exists>g. build_from_connections py_example fm_empty
          (map edge [(''A'', ''B''), (''A'', ''C''), (''C'', ''D'')]) = Inr g \<and>
       set (roots g) = {''A''} \<and>
       map_option children (nodes g ''A'') = Some [''B'', ''C''] \<and>
       map_option children (nodes g ''C'') = Some [''D'']"
  using roots_iff_never_target [OF set_semantics_example, of fm_empty "[]"
      "''A''" "''B''" "''C''" "''D''"]
  by simp

text \<open>
  Claim C3. For every edge list and every identifier \<open>s\<close> of it, the child sequence of the
  node of \<open>s\<close> is the sequence of targets of the edges with source \<open>s\<close>, in edge-list order;
  a target occurs among the children as often as the edge occurs in the list, so a
  repeated edge gives a repeated child.
\<close>

theorem children_follow_edge_order:
  assumes "set_semantics py"
  shows "\<exists>g. build_from_connections py fm (map edge E) = Inr g \<and>
           (\<forall>s \<in> ids_of E. \<exists>n. nodes g s = Some n \<and>
              children n = map snd (filter (\<lambda>e. fst e = s) E) \<and>
              (\<forall>t. count_list (children n) t = count_list E (s, t)))"
proof -
  obtain g where g: "build_from_connections py fm (map edge E) = Inr g"
    "nodes g = (\<lambda>i. if i \<in> ids_of E then Some (built_node fm E i) else None)"
    using build_edges [OF assms, of fm E] by blast
  have cnt: "count_list (map snd (filter (\<lambda>e. fst e = s) E)) t = count_list E (s, t)" for s t
    by (induction E) (auto simp: prod_eq_iff)
  show ?thesis
    by (rule exI [of _ g]) (simp add: g built_node_def targets_of_def cnt)
qed

text \<open>Claim C3 on a list that repeats the edge (A,C).\<close>

theorem children_follow_edge_order_witness:
  "\<exists>g. build_from_connections py_example fm_empty
          (map edge [(''A'', ''C''), (''A'', ''B''), (''A'', ''C'')]) = Inr g \<and>
       map_option children (nodes g ''A'') = Some [''C'', ''B'', ''C'']"
proof -
  obtain g where g: "build_from_connections py_example fm_empty
          (map edge [(''A'', ''C''), (''A'', ''B''), (''A'', ''C'')]) = Inr g"
     and c: "\<forall>s \<in> ids_of [(''A'', ''C''), (''A'', ''B''), (''A'', ''C'')]. \<exists>n. nodes g s = Some n \<and>
              children n = map snd (filter (\<lambda>e. fst e = s) [(''A'', ''C''), (''A'', ''B''), (''A'', ''C'')])
           \<and> (\<forall>t. count_list (children n) t = count_list [(''A'', ''C''), (''A'', ''B''), (''A'', ''C'')] (s, t))"
    using children_follow_edge_order [OF set_semantics_example, of fm_empty
        "[(''A'', ''C''), (''A'', ''B''), (''A'', ''C'')]"] by blast
  have "''A'' \<in> ids_of [(''A'', ''C''), (''A'', ''B''), (''A'', ''C'')]" by (simp add: ids_of_def)
  with c obtain n where "nodes g ''A'' = Some n"
    "children n = map snd (filter (\<lambda>e. fst e = ''A'') [(''A'', ''C''), (''A'', ''B''), (''A'', ''C'')])"
    by blast
  then have "map_option children (nodes g ''A'') = Some [''C'', ''B'', ''C'']" by simp
  with g show ?thesis by blast
qed

text \<open>
  Claim C9. A node holds one parent reference or none (the field is an option). After
  the build, the parent of a node is the source of the last edge in list order that
  enters it, and none when no edge enters it; the source of every edge, an earlier one
  too, still has the target among its children.
\<close>

theorem parent_is_last_source:
  assumes "set_semantics py"
  shows "\<exists>g. build_from_connections py fm (map edge E) = Inr g \<and>
           (\<forall>i \<in> ids_of E. \<exists>n. nodes g i = Some n \<and> parent n = last_source E i) \<and>
           (\<forall>e \<in> set E. \<exists>p. nodes g (fst e) = Some p \<and> snd e \<in> set (children p))"
proof -
  obtain g where g: "build_from_connections py fm (map edge E) = Inr g"
    "nodes g = (\<lambda>i. if i \<in> ids_of E then Some (built_node fm E i) else None)"
    using build_edges [OF assms, of fm E] by blast
  have "\<forall>e \<in> set E. \<exists>p. nodes g (fst e) = Some p \<and> snd e \<in> set (children p)"
    by (auto simp: g(2) built_node_def targets_of_def ids_of_def)
  moreover have "\<forall>i \<in> ids_of E. \<exists>n. nodes g i = Some n \<and> parent n = last_source E i"
    by (simp add: g(2) built_node_def)
  ultimately show ?thesis using g(1) by blast
qed

text \<open>Claim C9 on the edges (A,C), (B,C): C is a child of A and its parent is B.\<close>

theorem parent_is_last_source_witness:
  "\<exists>g p. build_from_connections py_example fm_empty
          (map edge [(''A'', ''C''), (''B'', ''C'')]) = Inr g \<and>
       map_option parent (nodes g ''C'') = Some (Some ''B'') \<and>
       nodes g ''A'' = Some p \<and> ''C'' \<in> set (children p)"
proof -
  let ?E = "[(''A'', ''C''), (''B'', ''C'')]"
  obtain g where g: "build_from_connections py_example fm_empty (map edge ?E) = Inr g"
    and p: "\<forall>i \<in> ids_of ?E. \<exists>n. nodes g i = Some n \<and> parent n = last_source ?E i"
    and c: "\<forall>e \<in> set ?E. \<exists>p. nodes g (fst e) = Some p \<and> snd e \<in> set (children p)"
    using parent_is_last_source [OF set_semantics_example, of fm_empty ?E] by blast
  have "''C'' \<in> ids_of ?E" by (simp add: ids_of_def)
  with p have "map_option parent (nodes g ''C'') = Some (Some ''B'')"
    by (auto simp: last_source_def)
  moreover from c obtain p where "nodes g ''A'' = Some p" "''C'' \<in> set (children p)"
    by auto
  ultimately show ?thesis using g by blast
qed

text \<open>
  Claim C8, as amended. The build validates no identifier: for every edge list, also one
  with an edge whose source or target is the empty string, it returns a generator and
  raises nothing; the empty identifier gets a node like any other, with the targets of
  its edges as children.
\<close>

theorem build_accepts_empty_identifier:
  assumes "set_semantics py"
  shows "\<exists>g. build_from_connections py fm (map edge E) = Inr g \<and>
           (\<forall>i \<in> ids_of E. \<exists>n. nodes g i = Some n \<and> nid n = i \<and>
              children n = targets_of E i)"
proof -
  obtain g where g: "build_from_connections py fm (map edge E) = Inr g"
    "nodes g = (\<lambda>i. if i \<in> ids_of E then Some (built_node fm E i) else None)"
    using build_edges [OF assms, of fm E] by blast
  show ?thesis
    by (rule exI [of _ g]) (simp add: g built_node_def)
qed

text \<open>The amended claim C8 on the single edge from the empty identifier to B.\<close>

theorem build_accepts_empty_identifier_witness:
  "\<exists>g. build_from_connections py_example fm_empty (map edge [([], ''B'')]) = Inr g \<and>
       map_option children (nodes g []) = Some [''B'']"
proof -
  obtain g where g: "build_from_connections py_example fm_empty (map edge [([], ''B'')]) = Inr g"
    and c: "\<forall>i \<in> ids_of [([], ''B'')]. \<exists>n. nodes g i = Some n \<and> nid n = i \<and>
              children n = targets_of [([], ''B'')] i"
    using build_accepts_empty_identifier [OF set_semantics_example, of fm_empty "[([], ''B'')]"]
    by blast
  from c have "map_option children (nodes g []) = Some [''B'']"
    by (auto simp: ids_of_def targets_of_def)
  with g show ?thesis by blast
qed

text \<open>
  Claim C8 as stated fails: for the single edge from the empty identifier to B the build
  raises no error; it returns a generator with a node for the empty identifier, which
  is the only root and has B as its child.
\<close>

theorem empty_identifier_not_rejected:
  "map_sum id (\<lambda>g. (roots g, nodes g [], nodes g ''B''))
     (build_from_connections py_example fm_empty [edge ([], ''B'')]) =
   Inr ([[]],
        Some \<lparr>nid = [], data = empty_twin, children = [''B''], parent = None\<rparr>,
        Some \<lparr>nid = ''B'', data = empty_twin, children = [], parent = Some []\<rparr>)"
  by (simp add: build_from_connections_def py_example_def fm_empty_def conn_get_edge
      set_add_def twin_get_def TreeNode_def add_child_def)

section \<open>Properties of the rendering walk\<close>

lemma render_each_returns:
  "(\<And>c. c \<in> set cs \<Longrightarrow> render c \<noteq> None) \<Longrightarrow> render_each render cs html \<noteq> None"
  by (induction cs arbitrary: html) (auto split: option.splits sum.splits)

text \<open>Induction along the walks from a node below which there is no cycle: \<open>A\<close> holds
  the nodes on the way to \<open>r\<close>, all different, so the fuel that remains suffices.\<close>

lemma walk_induct:
  assumes closed: "\<And>p n. st p = Some n \<Longrightarrow> set (children n) \<subseteq> dom st"
    and fin: "finite (dom st)"
    and step: "\<And>fuel r node. st r = Some node \<Longrightarrow>
        (\<And>c. c \<in> set (children node) \<Longrightarrow> P fuel c) \<Longrightarrow> P (Suc fuel) r"
  shows "r \<in> dom st \<Longrightarrow> A \<subseteq> dom st \<Longrightarrow> r \<notin> A \<Longrightarrow>
     (\<And>a. a \<in> A \<Longrightarrow> (a, r) \<in> (child_rel st)\<^sup>+) \<Longrightarrow>
     (\<And>x. (r, x) \<in> (child_rel st)\<^sup>* \<Longrightarrow> (x, x) \<notin> (child_rel st)\<^sup>+) \<Longrightarrow>
     card (dom st) - card A \<le> fuel \<Longrightarrow> P fuel r"
proof (induction fuel arbitrary: r A)
  case 0
  from "0.prems"(1-3) have "A \<subset> dom st" by auto
  with fin have "card A < card (dom st)" by (rule psubset_card_mono)
  with "0.prems"(6) show ?case by simp
next
  case (Suc fuel)
  from Suc.prems(1) obtain node where node: "st r = Some node" by auto
  have "P fuel c" if c: "c \<in> set (children node)" for c
  proof (rule Suc.IH [where A = "insert r A"])
    from c node have rc: "(r, c) \<in> child_rel st" by (auto simp: child_rel_def)
    show "c \<in> dom st" using closed [OF node] c by auto
    show "insert r A \<subseteq> dom st" using Suc.prems(1,2) by simp
    show "c \<notin> insert r A"
    proof
      assume "c \<in> insert r A"
      then have "(c, r) \<in> (child_rel st)\<^sup>*"
        using Suc.prems(4) by (auto intro: trancl_into_rtrancl)
      with rc have "(c, c) \<in> (child_rel st)\<^sup>+" by (meson rtrancl_into_trancl1)
      moreover have "(c, c) \<notin> (child_rel st)\<^sup>+" using rc by (intro Suc.prems(5)) auto
      ultimately show False by simp
    qed
    show "(a, c) \<in> (child_rel st)\<^sup>+" if "a \<in> insert r A" for a
    proof -
      from that Suc.prems(4) have "(a, r) \<in> (child_rel st)\<^sup>*"
        by (auto intro: trancl_into_rtrancl)
      with rc show ?thesis by (meson rtrancl_into_trancl1)
    qed
    show "(x, x) \<notin> (child_rel st)\<^sup>+" if "(c, x) \<in> (child_rel st)\<^sup>*" for x
      using rc that by (intro Suc.prems(5)) (rule converse_rtrancl_into_rtrancl)
    have "finite A" using Suc.prems(2) fin by (rule finite_subset)
    then have "card (insert r A) = Suc (card A)" using Suc.prems(3) by simp
    with Suc.prems(6) show "card (dom st) - card (insert r A) \<le> fuel" by simp
  qed
  with node show ?case by (rule step)
qed

lemma render_node_step:
  assumes node: "st r = Some node"
    and kids: "\<And>c. c \<in> set (children node) \<Longrightarrow> render_node_html fuel py fm st c \<noteq> None"
  shows "render_node_html (Suc fuel) py fm st r \<noteq> None"
proof (cases "render_open py fm node")
  case (Inl e)
  with node show ?thesis by simp
next
  case (Inr html)
  have "render_each (\<lambda>child. render_node_html fuel py fm st child) (children node)
        (html @ ''  <ul>'' @ nl) \<noteq> None"
    using kids by (rule render_each_returns)
  then obtain res where "render_each (\<lambda>child. render_node_html fuel py fm st child)
        (children node) (html @ ''  <ul>'' @ nl) = Some res" by blast
  with node Inr show ?thesis by (cases res) simp_all
qed

lemma occurrences_step:
  assumes node: "st r = Some node"
    and kids: "\<And>c. c \<in> set (children node) \<Longrightarrow> occurrences (Suc fuel) st c = occurrences fuel st c"
  shows "occurrences (Suc (Suc fuel)) st r = occurrences (Suc fuel) st r"
proof -
  have eq: "map (\<lambda>c. occurrences (Suc fuel) st c) (children node) =
        map (\<lambda>c. occurrences fuel st c) (children node)"
    using kids by (simp del: occurrences.simps)
  have "occurrences (Suc (Suc fuel)) st r =
        1 + sum_list (map (\<lambda>c. occurrences (Suc fuel) st c) (children node))"
    by (simp only: occurrences.simps(2) [of "Suc fuel"] node option.case)
  moreover have "occurrences (Suc fuel) st r =
        1 + sum_list (map (\<lambda>c. occurrences fuel st c) (children node))"
    by (simp only: occurrences.simps(2) [of fuel] node option.case)
  ultimately show ?thesis using eq by (simp del: occurrences.simps)
qed

lemma T_render_each_le:
  "(\<And>c. c \<in> set cs \<Longrightarrow> T c \<le> occ c) \<Longrightarrow> T_render_each render T cs \<le> sum_list (map occ cs)"
proof (induction cs)
  case Nil
  show ?case by simp
next
  case (Cons c cs)
  have "T_render_each render T cs \<le> sum_list (map occ cs)" using Cons by simp
  moreover have "T c \<le> occ c" using Cons.prems by simp
  ultimately show ?case by (auto split: option.splits sum.splits)
qed

lemma T_render_node_le: "T_render_node_html fuel py fm st r \<le> occurrences fuel st r"
proof (induction fuel arbitrary: r)
  case 0
  show ?case by simp
next
  case (Suc fuel)
  show ?case
    by (auto split: option.splits sum.splits intro!: T_render_each_le Suc.IH)
qed

lemma child_rel_built:
  "child_rel (\<lambda>i. if i \<in> ids_of E then Some (built_node fm E i) else None) = set E"
  by (auto simp: child_rel_def built_node_def targets_of_def ids_of_def image_iff split: if_splits)
    (metis fst_conv)+

lemma occurrences_mono: "occurrences fuel st r \<le> occurrences (Suc fuel) st r"
proof (induction fuel arbitrary: r)
  case 0
  show ?case by simp
next
  case (Suc fuel)
  show ?case by (auto split: option.splits intro!: sum_list_mono Suc.IH)
qed

lemma node_count_card: "node_count E = card (ids_of E)"
  by (simp add: node_count_def ids_of_def length_remdups_card_conv)

lemma render_open_no_telemetry:
  "telemetry_data fm (nid node) = None \<Longrightarrow> \<exists>html. render_open py fm node = Inr html"
  by (simp add: render_open_def latest_telemetry_def tooltip_items_def Let_def)

text \<open>On a built forest whose part below the roots has no cycle, a walk from a root
  with as much fuel as there are nodes returns, and deeper walks find no further node
  occurrences.\<close>

lemma built_walks:
  assumes acyc: "reachable_acyclic E"
    and st: "st = (\<lambda>i. if i \<in> ids_of E then Some (built_node fm' E i) else None)"
    and r: "r \<in> ids_of E" "r \<notin> snd ` set E"
    and fuel: "node_count E \<le> fuel"
  shows "render_node_html fuel py fm st r \<noteq> None"
    and "occurrences (Suc fuel) st r = occurrences fuel st r"
proof -
  have rel: "child_rel st = set E" unfolding st by (rule child_rel_built)
  have dom: "dom st = ids_of E" unfolding st by (auto split: if_splits)
  have fin: "finite (dom st)" unfolding dom by (simp add: ids_of_def)
  have closed: "set (children n) \<subseteq> dom st" if "st p = Some n" for p n
  proof
    fix c assume "c \<in> set (children n)"
    with that have "(p, c) \<in> child_rel st" by (auto simp: child_rel_def)
    then show "c \<in> dom st" unfolding rel dom by (force simp: ids_of_def)
  qed
  have r_dom: "r \<in> dom st" using r(1) dom by simp
  have no_cycle: "(x, x) \<notin> (child_rel st)\<^sup>+" if "(r, x) \<in> (child_rel st)\<^sup>*" for x
    using acyc r that unfolding rel reachable_acyclic_def by blast
  have bound: "card (dom st) - card ({} :: ident set) \<le> fuel"
    using fuel by (simp add: dom node_count_card)
  show "render_node_html fuel py fm st r \<noteq> None"
    by (rule walk_induct [where P = "\<lambda>fuel r. render_node_html fuel py fm st r \<noteq> None"
          and A = "{}", OF closed fin render_node_step r_dom _ _ _ no_cycle bound]) auto
  show "occurrences (Suc fuel) st r = occurrences fuel st r"
    by (rule walk_induct [where P = "\<lambda>fuel r. occurrences (Suc fuel) st r = occurrences fuel st r"
          and A = "{}", OF closed fin occurrences_step r_dom _ _ _ no_cycle bound]) auto
qed

lemma built_occurrences_stable:
  assumes acyc: "reachable_acyclic E"
    and st: "st = (\<lambda>i. if i \<in> ids_of E then Some (built_node fm' E i) else None)"
    and r: "r \<in> ids_of E" "r \<notin> snd ` set E"
  shows "occurrences (node_count E + k) st r = occurrences (node_count E) st r"
proof (induction k)
  case 0
  show ?case by simp
next
  case (Suc k)
  have "occurrences (Suc (node_count E + k)) st r = occurrences (node_count E + k) st r"
    by (rule built_walks(2) [OF acyc st r]) simp
  with Suc show ?case by (simp del: occurrences.simps)
qed

lemma distinct_singleton:
  assumes "distinct xs" "set xs = {a}"
  shows "xs = [a]"
proof -
  from assms have "length xs = 1" using distinct_card [of xs] by simp
  then obtain x where "xs = [x]" by (cases xs) auto
  with assms(2) show ?thesis by simp
qed

lemma render_cycle_diverges:
  assumes a: "st ''A'' = Some \<lparr>nid = ''A'', data = empty_twin, children = [''B''], parent = pa\<rparr>"
    and b: "st ''B'' = Some \<lparr>nid = ''B'', data = empty_twin, children = [''A''], parent = pb\<rparr>"
  shows "render_node_html fuel py fm_empty st ''A'' = None \<and>
         render_node_html fuel py fm_empty st ''B'' = None"
proof (induction fuel)
  case 0
  show ?case by simp
next
  case (Suc fuel)
  obtain ha where ha: "render_open py fm_empty \<lparr>nid = ''A'', data = empty_twin, children = [''B''], parent = pa\<rparr> = Inr ha"
    using render_open_no_telemetry [of fm_empty _ py] by (auto simp: fm_empty_def)
  obtain hb where hb: "render_open py fm_empty \<lparr>nid = ''B'', data = empty_twin, children = [''A''], parent = pb\<rparr> = Inr hb"
    using render_open_no_telemetry [of fm_empty _ py] by (auto simp: fm_empty_def)
  show ?case using Suc a b ha hb by simp
qed

lemma render_diverges_on_cycle:
  "\<exists>g. build_from_connections py_example fm_empty (map edge cyclic_edges) = Inr g \<and>
       roots g = [''R''] \<and> (\<forall>fuel. tree_html fuel py_example fm_empty g = None)"
proof -
  obtain g where g: "build_from_connections py_example fm_empty (map edge cyclic_edges) = Inr g"
    and st: "nodes g = (\<lambda>i. if i \<in> ids_of cyclic_edges then Some (built_node fm_empty cyclic_edges i) else None)"
    and d: "distinct (roots g)" and roots: "set (roots g) = ids_of cyclic_edges - snd ` set cyclic_edges"
    using build_edges [OF set_semantics_example, of fm_empty cyclic_edges] by blast
  have "set (roots g) = {''R''}" unfolding roots by (auto simp: ids_of_def cyclic_edges_def)
  with d have r: "roots g = [''R'']" by (rule distinct_singleton)
  have tw: "twin_get fm_empty i = empty_twin" for i by (simp add: twin_get_def fm_empty_def)
  have a: "nodes g ''A'' = Some \<lparr>nid = ''A'', data = empty_twin, children = [''B''], parent = last_source cyclic_edges ''A''\<rparr>"
    unfolding st by (simp add: built_node_def tw targets_of_def ids_of_def cyclic_edges_def)
  have b: "nodes g ''B'' = Some \<lparr>nid = ''B'', data = empty_twin, children = [''A''], parent = last_source cyclic_edges ''B''\<rparr>"
    unfolding st by (simp add: built_node_def tw targets_of_def ids_of_def cyclic_edges_def)
  have rr: "nodes g ''R'' = Some \<lparr>nid = ''R'', data = empty_twin, children = [''A''], parent = last_source cyclic_edges ''R''\<rparr>"
    unfolding st by (simp add: built_node_def tw targets_of_def ids_of_def cyclic_edges_def)
  have "tree_html fuel py_example fm_empty g = None" for fuel
  proof (cases fuel)
    case 0
    then show ?thesis by (simp add: tree_html_def r)
  next
    case (Suc n)
    obtain hr where hr: "render_open py_example fm_empty \<lparr>nid = ''R'', data = empty_twin, children = [''A''], parent = last_source cyclic_edges ''R''\<rparr> = Inr hr"
      using render_open_no_telemetry [of fm_empty _ py_example] by (auto simp: fm_empty_def)
    have "render_node_html n py_example fm_empty (nodes g) ''A'' = None"
      using render_cycle_diverges [OF a b] by simp
    then show ?thesis using Suc rr hr by (simp add: tree_html_def r)
  qed
  with g r show ?thesis by blast
qed

lemma acyclic_example: "reachable_acyclic [(''A'', ''B''), (''A'', ''C''), (''C'', ''D'')]"
proof -
  let ?E = "[(''A'', ''B''), (''A'', ''C''), (''C'', ''D'')]"
  let ?rank = "\<lambda>x. if x = ''A'' then 2 else if x = ''C'' then 1 else (0 :: nat)"
  have "acyclic (set ?E)"
    by (rule acyclicI_order [where f = ?rank]) auto
  then show ?thesis by (simp add: reachable_acyclic_def acyclic_def)
qed

text \<open>
  Claim C4. For every edge list whose parent/child relation has no cycle through a node
  reachable from a root, the rendering walk over the built forest returns (a markup or
  an error, never running out of fuel) as soon as the fuel is the number of nodes, and
  the number of calls it makes is at most the number of node occurrences below the
  roots. There is no cycle detection: on the edges (R,A), (A,B), (B,A) the walk from the
  root R returns for no amount of fuel.
\<close>

theorem render_terminates_on_acyclic_forest:
  assumes "set_semantics py" and "reachable_acyclic E" and "node_count E \<le> fuel"
  shows "(\<exists>g res. build_from_connections py fm (map edge E) = Inr g \<and>
            tree_html fuel py fm g = Some res \<and>
            T_tree_html fuel py fm g \<le> forest_occurrences (node_count E) g) \<and>
         (\<exists>g. build_from_connections py_example fm_empty (map edge cyclic_edges) = Inr g \<and>
            roots g = [''R''] \<and> (\<forall>n. tree_html n py_example fm_empty g = None))"
proof
  obtain g where g: "build_from_connections py fm (map edge E) = Inr g"
    and st: "nodes g = (\<lambda>i. if i \<in> ids_of E then Some (built_node fm E i) else None)"
    and roots: "set (roots g) = ids_of E - snd ` set E"
    using build_edges [OF assms(1), of fm E] by blast
  have root: "r \<in> ids_of E" "r \<notin> snd ` set E" if "r \<in> set (roots g)" for r
    using that roots by auto
  have "render_each (\<lambda>root. render_node_html fuel py fm (nodes g) root) (roots g) [] \<noteq> None"
    by (rule render_each_returns) (rule built_walks(1) [OF assms(2) st root assms(3)])
  then obtain res where res: "tree_html fuel py fm g = Some res"
    by (auto simp: tree_html_def)
  obtain k where k: "fuel = node_count E + k" using assms(3) by (auto simp: le_iff_add)
  have "T_tree_html fuel py fm g \<le>
        sum_list (map (\<lambda>r. occurrences fuel (nodes g) r) (roots g))"
    unfolding T_tree_html_def by (rule T_render_each_le) (rule T_render_node_le)
  also have "map (\<lambda>r. occurrences fuel (nodes g) r) (roots g) =
             map (\<lambda>r. occurrences (node_count E) (nodes g) r) (roots g)"
    unfolding k by (rule map_cong [OF refl]) (rule built_occurrences_stable [OF assms(2) st root])
  finally have "T_tree_html fuel py fm g \<le> forest_occurrences (node_count E) g"
    by (simp add: forest_occurrences_def del: occurrences.simps)
  with g res show "\<exists>g res. build_from_connections py fm (map edge E) = Inr g \<and>
            tree_html fuel py fm g = Some res \<and>
            T_tree_html fuel py fm g \<le> forest_occurrences (node_count E) g" by blast
next
  show "\<exists>g. build_from_connections py_example fm_empty (map edge cyclic_edges) = Inr g \<and>
            roots g = [''R''] \<and> (\<forall>n. tree_html n py_example fm_empty g = None)"
    by (rule render_diverges_on_cycle)
qed

text \<open>Claim C4 on the edges (A,B), (A,C), (C,D), with four units of fuel.\<close>

theorem render_terminates_on_acyclic_forest_witness:
  "\<exists>g res. build_from_connections py_example fm_empty
            (map edge [(''A'', ''B''), (''A'', ''C''), (''C'', ''D'')]) = Inr g \<and>
     tree_html 4 py_example fm_empty g = Some res \<and>
     T_tree_html 4 py_example fm_empty g \<le> forest_occurrences 4 g"
proof -
  have nc: "node_count [(''A'', ''B''), (''A'', ''C''), (''C'', ''D'')] = 4"
    by (simp add: node_count_def)
  show ?thesis
    using render_terminates_on_acyclic_forest [OF set_semantics_example acyclic_example,
      of 4 fm_empty]
    unfolding nc by blast
qed

section \<open>Properties of a rendered node\<close>

lemma get_unit_first_match: "get_unit py key = first_match py unit_table key"
  by (simp add: get_unit_def unit_table_def Let_def)

lemma property_items_map:
  "property_items py props = map (\<lambda>(key, value). key @ '': '' @ py_str py value) (non_status props)"
  by (induction props) (auto simp: non_status_def)

lemma telemetry_items_Inr:
  "telemetry_items py tel = Inr ls \<Longrightarrow>
     ls = map (\<lambda>(key, value). key @ '': '' @ projr (py_format_1f py value) @ get_unit py key) tel \<and>
     list_all (\<lambda>(key, value). \<not> isl (py_format_1f py value)) tel"
  by (induction tel arbitrary: ls) (auto simp: Let_def split: sum.splits)

lemma format_numeric: "\<not> isl (py_format_1f py v) \<Longrightarrow> numeric v"
  by (cases v) (auto simp: py_format_1f_def numeric_def)

lemma render_open_Inr:
  assumes "render_open py fm node = Inr html"
  shows "\<exists>telemetry items. latest_telemetry fm node = Inr telemetry \<and>
           tooltip_items py (properties (data node)) telemetry = Inr items \<and>
           html = node_markup py (nid node)
                    (node_class_of py (nid node) (dict_get (properties (data node)) ''status'' (VStr [])))
                    (tooltip_of items (model_name_of fm node)) (model_name_of fm node)
                    (dict_get (properties (data node)) ''status'' (VStr []))"
  using assms by (auto simp: render_open_def Let_def split: sum.splits)

lemma tooltip_items_Inr:
  assumes "tooltip_items py props telemetry = Inr items"
  shows "items =
           map (\<lambda>(key, value). key @ '': '' @ py_str py value) (non_status props) @
           map (\<lambda>(key, value). key @ '': '' @ projr (py_format_1f py value) @
                  first_match py unit_table key) (take 3 telemetry)"
    and "numeric_telemetry telemetry"
    and "list_all (\<lambda>(key, value). \<not> isl (py_format_1f py value)) (take 3 telemetry)"
proof -
  from assms obtain ls where ls: "telemetry_items py (take 3 telemetry) = Inr ls"
    and items: "items = property_items py props @ ls"
    by (auto simp: tooltip_items_def split: sum.splits)
  from telemetry_items_Inr [OF ls]
  have l: "ls = map (\<lambda>(key, value). key @ '': '' @ projr (py_format_1f py value) @
                  first_match py unit_table key) (take 3 telemetry)"
    and f: "list_all (\<lambda>(key, value). \<not> isl (py_format_1f py value)) (take 3 telemetry)"
    by (simp_all add: get_unit_first_match)
  from items l show "items =
           map (\<lambda>(key, value). key @ '': '' @ py_str py value) (non_status props) @
           map (\<lambda>(key, value). key @ '': '' @ projr (py_format_1f py value) @
                  first_match py unit_table key) (take 3 telemetry)"
    by (simp add: property_items_map)
  from f show "numeric_telemetry telemetry"
    unfolding numeric_telemetry_def list_all_iff by (auto dest: format_numeric)
  from f show "list_all (\<lambda>(key, value). \<not> isl (py_format_1f py value)) (take 3 telemetry)" .
qed



text \<open>
  Claim C6, as amended. Every node has the tag node. An identifier whose lower-cased
  form (by \<^verbatim>\<open>str.lower\<close> of the run time) contains pump adds pump-node, and running when
  the status is exactly running, stopped when it is exactly stopped, neither for any
  other status (an absent status reads as the empty string). An identifier whose
  lower-cased form contains tank and not pump adds tank-node. Any other identifier has
  the tag node only.
\<close>

theorem class_tags_of_node:
  "class_tags (node_class_of py i status) =
     (if str_in ''pump'' (str_lower py i) then
        {''node'', ''pump-node''} \<union>
        (if status = VStr ''running'' then {''running''}
         else if status = VStr ''stopped'' then {''stopped''} else {})
      else if str_in ''tank'' (str_lower py i) then {''node'', ''tank-node''}
      else {''node''})"
  by (simp add: node_class_of_def class_tags_def)

text \<open>The amended claim C6 on four nodes.\<close>

theorem class_tags_of_node_witness:
  "class_tags (node_class_of py_example ''Pump-001'' (VStr ''stopped'')) = {''node'', ''pump-node'', ''stopped''} \<and>
   class_tags (node_class_of py_example ''Pump-001'' (VStr ''idle'')) = {''node'', ''pump-node''} \<and>
   class_tags (node_class_of py_example ''main-TANK'' (VStr ''running'')) = {''node'', ''tank-node''} \<and>
   class_tags (node_class_of py_example ''valve-7'' (VStr ''running'')) = {''node''}"
  using class_tags_of_node [of py_example "''Pump-001''" "VStr ''stopped''"]
    class_tags_of_node [of py_example "''Pump-001''" "VStr ''idle''"]
    class_tags_of_node [of py_example "''main-TANK''" "VStr ''running''"]
    class_tags_of_node [of py_example "''valve-7''" "VStr ''running''"]
  by (simp add: str_lower_example ascii_lower_def ascii_lower_char_def insert_commute)

text \<open>On an identifier of ASCII characters the class is decided by the identifier with
  its letters A to Z lower-cased.\<close>

lemma node_class_of_ascii:
  assumes "lower_semantics py" and "\<forall>c \<in> set i. (of_char c :: nat) < 128"
  shows "node_class_of py i status = node_class_of py_example i status"
proof -
  from assms have "str_lower py i = ascii_lower i" by (simp add: lower_semantics_def)
  then have "str_lower py i = str_lower py_example i" by (simp add: str_lower_example)
  then show ?thesis by (simp add: node_class_of_def cong: if_cong)
qed

text \<open>The case mapping is that of the run time: an identifier written with the Kelvin
  sign (bytes E2 84 AA), which \<^verbatim>\<open>str.lower\<close> turns into the letter k, is a tank.\<close>

lemma kelvin_sign_is_k:
  assumes "str_lower py (''tan'' @ [CHR 0xE2, CHR 0x84, CHR 0xAA] @ ''-1'') = ''tank-1''"
  shows "node_class_of py (''tan'' @ [CHR 0xE2, CHR 0x84, CHR 0xAA] @ ''-1'') status =
           ''node tank-node''"
  using assms by (simp add: node_class_of_def)

text \<open>
  Claim C6 as stated fails: the identifier pump-tank-1 contains tank, and the node gets
  the class node pump-node running, without the tag tank-node.
\<close>

theorem tank_tag_missing_on_pump:
  "str_in ''tank'' (str_lower py_example ''pump-tank-1'') \<and>
   ''tank-node'' \<notin> class_tags (node_class_of py_example ''pump-tank-1'' (VStr ''running'')) \<and>
   node_class_of py_example ''pump-tank-1'' (VStr ''running'') = ''node pump-node running''"
  by (simp add: node_class_of_def class_tags_def str_lower_example ascii_lower_def
      ascii_lower_char_def)

lemma render_each_Inr:
  "render_each render cs html = Some (Inr html') \<Longrightarrow> c \<in> set cs \<Longrightarrow>
     \<exists>h. render c = Some (Inr h)"
  by (induction cs arbitrary: html) (auto split: option.splits sum.splits)

lemma render_node_Inr:
  assumes "render_node_html fuel py fm st r = Some (Inr html)"
  shows "\<exists>n node h. fuel = Suc n \<and> st r = Some node \<and> render_open py fm node = Inr h \<and>
           (\<forall>c \<in> set (children node). \<exists>hc. render_node_html n py fm st c = Some (Inr hc))"
proof (cases fuel)
  case 0
  with assms show ?thesis by simp
next
  case (Suc n)
  with assms obtain node h where node: "st r = Some node" and h: "render_open py fm node = Inr h"
    by (auto split: option.splits sum.splits)
  have "\<exists>hc. render_node_html n py fm st c = Some (Inr hc)" if "c \<in> set (children node)" for c
  proof -
    from that have "children node \<noteq> []" by auto
    with assms Suc node h obtain html' where
      "render_each (\<lambda>child. render_node_html n py fm st child) (children node)
         (h @ ''  <ul>'' @ nl) = Some (Inr html')"
      by (auto split: option.splits sum.splits)
    from render_each_Inr [OF this that] show ?thesis .
  qed
  with Suc node h show ?thesis by blast
qed

lemma render_node_reaches:
  assumes "(r, x) \<in> (child_rel st)\<^sup>*"
  shows "render_node_html fuel py fm st r = Some (Inr html) \<Longrightarrow>
     \<exists>n h. render_node_html n py fm st x = Some (Inr h)"
  using assms
proof (induction arbitrary: fuel html rule: converse_rtrancl_induct)
  case base
  then show ?case by blast
next
  case (step r c)
  from step.hyps(1) obtain node where node: "st r = Some node" and c: "c \<in> set (children node)"
    by (auto simp: child_rel_def)
  from render_node_Inr [OF step.prems] node c
  obtain n hc where "render_node_html n py fm st c = Some (Inr hc)" by fastforce
  then show ?case by (rule step.IH)
qed

text \<open>
  Claim C10. When the rendering of a forest, or of a node, returns markup, every node
  that can be reached has a latest telemetry map whose first three values are numbers;
  and a node whose first three telemetry values are not all numbers makes the call that
  renders it raise.
\<close>

theorem rendering_needs_numeric_telemetry:
  "(tree_html fuel py fm g = Some (Inr html) \<longrightarrow> r \<in> set (roots g) \<longrightarrow>
      (r, x) \<in> (child_rel (nodes g))\<^sup>* \<longrightarrow>
      (\<exists>node telemetry. nodes g x = Some node \<and> latest_telemetry fm node = Inr telemetry \<and>
         numeric_telemetry telemetry)) \<and>
   (render_node_html fuel py fm st r = Some (Inr html) \<longrightarrow> (r, x) \<in> (child_rel st)\<^sup>* \<longrightarrow>
      (\<exists>node telemetry. st x = Some node \<and> latest_telemetry fm node = Inr telemetry \<and>
         numeric_telemetry telemetry)) \<and>
   (st r = Some node \<longrightarrow> latest_telemetry fm node = Inr telemetry \<longrightarrow>
      \<not> numeric_telemetry telemetry \<longrightarrow>
      (\<exists>e. render_node_html (Suc fuel) py fm st r = Some (Inl e)))"
proof -
  have walk: "\<exists>node telemetry. st x = Some node \<and> latest_telemetry fm node = Inr telemetry \<and>
      numeric_telemetry telemetry"
    if "render_node_html fuel py fm st r = Some (Inr html)" and "(r, x) \<in> (child_rel st)\<^sup>*"
    for fuel st r html
  proof -
    from that obtain n h where "render_node_html n py fm st x = Some (Inr h)"
      using render_node_reaches by blast
    from render_node_Inr [OF this] obtain node h' where node: "st x = Some node"
      and h': "render_open py fm node = Inr h'" by blast
    from render_open_Inr [OF h'] obtain telemetry items
      where "latest_telemetry fm node = Inr telemetry"
        "tooltip_items py (properties (data node)) telemetry = Inr items" by blast
    with node tooltip_items_Inr(2) show ?thesis by blast
  qed
  have forest: "\<exists>node telemetry. nodes g x = Some node \<and>
      latest_telemetry fm node = Inr telemetry \<and> numeric_telemetry telemetry"
    if t: "tree_html fuel py fm g = Some (Inr html)" and r: "r \<in> set (roots g)"
      and x: "(r, x) \<in> (child_rel (nodes g))\<^sup>*"
  proof -
    from t have "render_each (\<lambda>root. render_node_html fuel py fm (nodes g) root) (roots g) [] =
        Some (Inr html)" by (simp add: tree_html_def)
    from render_each_Inr [OF this r] obtain h
      where "render_node_html fuel py fm (nodes g) r = Some (Inr h)" by blast
    from walk [OF this x] show ?thesis .
  qed
  have raise: "\<exists>e. render_node_html (Suc fuel) py fm st r = Some (Inl e)"
    if node: "st r = Some node" and tel: "latest_telemetry fm node = Inr telemetry"
      and bad: "\<not> numeric_telemetry telemetry"
  proof -
    have "\<exists>e. render_open py fm node = Inl e"
    proof (cases "render_open py fm node")
      case (Inl e)
      then show ?thesis by blast
    next
      case (Inr h)
      from render_open_Inr [OF this] tel obtain items
        where "tooltip_items py (properties (data node)) telemetry = Inr items" by auto
      from tooltip_items_Inr(2) [OF this] bad show ?thesis by simp
    qed
    with node show ?thesis by auto
  qed
  from walk forest raise show ?thesis by blast
qed

text \<open>Claim C10 on a node whose first telemetry value is a string.\<close>

theorem rendering_needs_numeric_telemetry_witness:
  "\<exists>e. render_node_html 1 py_example fm_bad
         [''pump-001'' \<mapsto> TreeNode ''pump-001'' empty_twin] ''pump-001'' = Some (Inl e)"
proof -
  let ?st = "[''pump-001'' \<mapsto> TreeNode ''pump-001'' empty_twin]"
  have 1: "?st ''pump-001'' = Some (TreeNode ''pump-001'' empty_twin)" by simp
  have 2: "latest_telemetry fm_bad (TreeNode ''pump-001'' empty_twin) =
      Inr [(''motorTemperature'', VStr ''hot'')]"
    by (simp add: latest_telemetry_def fm_bad_def TreeNode_def)
  have 3: "\<not> numeric_telemetry [(''motorTemperature'', VStr ''hot'')]"
    by (simp add: numeric_telemetry_def numeric_def)
  from rendering_needs_numeric_telemetry [where st = ?st and r = "''pump-001''"
      and node = "TreeNode ''pump-001'' empty_twin" and fm = fm_bad
      and telemetry = "[(''motorTemperature'', VStr ''hot'')]" and py = py_example and fuel = 0]
    1 2 3
  show ?thesis by simp
qed

lemma telemetry_string_raises_ValueError:
  "render_node_html 1 py_example fm_bad
     [''pump-001'' \<mapsto> TreeNode ''pump-001'' empty_twin] ''pump-001'' = Some (Inl ValueError)"
  by (simp add: render_open_def latest_telemetry_def fm_bad_def TreeNode_def tooltip_items_def
      py_format_1f_def Let_def)

lemma distinct_pair:
  assumes "distinct xs" "set xs = {a, b}" "a \<noteq> b"
  shows "xs = [a, b] \<or> xs = [b, a]"
proof -
  from assms have "length xs = 2" using distinct_card [of xs] by simp
  then obtain x y where "xs = [x, y]"
    by (cases xs; cases "tl xs") auto
  with assms(2) show ?thesis by (auto simp: doubleton_eq_iff)
qed

text \<open>
  Claim C7. The build creates a node for an identifier that the twin lookup does not
  know, with the empty payload, and raises nothing; such a node with no telemetry and
  no children is rendered to markup. A node whose model id is not in the registry gets
  the label Unknown, and its rendering returns markup whenever its telemetry can be
  read and formatted.
\<close>

theorem missing_data_never_raises:
  assumes "set_semantics py"
  shows "(\<exists>g. build_from_connections py fm (map edge E) = Inr g \<and>
            (\<forall>i \<in> ids_of E. twin_instances fm i = None \<longrightarrow>
               (\<exists>n. nodes g i = Some n \<and> nid n = i \<and> data n = empty_twin \<and>
                  (telemetry_data fm i = None \<longrightarrow> targets_of E i = [] \<longrightarrow>
                     render_node_html (Suc fuel) py fm (nodes g) i =
                       Some (Inr (node_markup py i (node_class_of py i (VStr []))
                         (model_name_of fm n) (model_name_of fm n) (VStr []) @ ''</li>'' @ nl)))))) \<and>
         (models fm (model_id_of node) = None \<longrightarrow>
            model_name_of fm node = ''Unknown'' \<and>
            (latest_telemetry fm node = Inr telemetry \<longrightarrow>
             tooltip_items py (properties (data node)) telemetry = Inr items \<longrightarrow>
               render_open py fm node =
                 Inr (node_markup py (nid node)
                        (node_class_of py (nid node) (dict_get (properties (data node)) ''status'' (VStr [])))
                        (tooltip_of items ''Unknown'') ''Unknown''
                        (dict_get (properties (data node)) ''status'' (VStr [])))))"
proof (intro conjI impI)
  obtain g where g: "build_from_connections py fm (map edge E) = Inr g"
    and st: "nodes g = (\<lambda>i. if i \<in> ids_of E then Some (built_node fm E i) else None)"
    using build_edges [OF assms, of fm E] by blast
  have "\<exists>n. nodes g i = Some n \<and> nid n = i \<and> data n = empty_twin \<and>
          (telemetry_data fm i = None \<longrightarrow> targets_of E i = [] \<longrightarrow>
             render_node_html (Suc fuel) py fm (nodes g) i =
               Some (Inr (node_markup py i (node_class_of py i (VStr []))
                 (model_name_of fm n) (model_name_of fm n) (VStr []) @ ''</li>'' @ nl)))"
    if i: "i \<in> ids_of E" and tw: "twin_instances fm i = None" for i
  proof -
    let ?n = "built_node fm E i"
    have n: "nodes g i = Some ?n" using i st by simp
    have d: "data ?n = empty_twin" using tw by (simp add: built_node_def twin_get_def)
    have "render_node_html (Suc fuel) py fm (nodes g) i =
               Some (Inr (node_markup py i (node_class_of py i (VStr []))
                 (model_name_of fm ?n) (model_name_of fm ?n) (VStr []) @ ''</li>'' @ nl))"
      if "telemetry_data fm i = None" "targets_of E i = []"
    proof -
      have "render_open py fm ?n = Inr (node_markup py i (node_class_of py i (VStr []))
                 (model_name_of fm ?n) (model_name_of fm ?n) (VStr []))"
        using that(1) d
        by (simp add: render_open_def latest_telemetry_def tooltip_items_def tooltip_of_def
            dict_get_def empty_twin_def built_node_def Let_def)
      moreover have "children ?n = []" using that(2) by (simp add: built_node_def)
      ultimately show ?thesis using n by simp
    qed
    with n d show ?thesis by (simp add: built_node_def)
  qed
  with g show "\<exists>g. build_from_connections py fm (map edge E) = Inr g \<and>
            (\<forall>i \<in> ids_of E. twin_instances fm i = None \<longrightarrow>
               (\<exists>n. nodes g i = Some n \<and> nid n = i \<and> data n = empty_twin \<and>
                  (telemetry_data fm i = None \<longrightarrow> targets_of E i = [] \<longrightarrow>
                     render_node_html (Suc fuel) py fm (nodes g) i =
                       Some (Inr (node_markup py i (node_class_of py i (VStr []))
                         (model_name_of fm n) (model_name_of fm n) (VStr []) @ ''</li>'' @ nl)))))"
    by blast
next
  assume "models fm (model_id_of node) = None"
  then show "model_name_of fm node = ''Unknown''" by (simp add: model_name_of_def)
next
  assume "models fm (model_id_of node) = None" "latest_telemetry fm node = Inr telemetry"
    "tooltip_items py (properties (data node)) telemetry = Inr items"
  then show "render_open py fm node =
                 Inr (node_markup py (nid node)
                        (node_class_of py (nid node) (dict_get (properties (data node)) ''status'' (VStr [])))
                        (tooltip_of items ''Unknown'') ''Unknown''
                        (dict_get (properties (data node)) ''status'' (VStr [])))"
    by (simp add: render_open_def model_name_of_def Let_def)
qed

text \<open>Claim C7 on the edge (A,B) with no twin, no model and no telemetry.\<close>

theorem missing_data_never_raises_witness:
  "\<exists>g. build_from_connections py_example fm_empty (map edge [(''A'', ''B'')]) = Inr g \<and>
       render_node_html 1 py_example fm_empty (nodes g) ''B'' =
         Some (Inr (node_markup py_example ''B'' ''node'' ''Unknown'' ''Unknown'' (VStr [])
                      @ ''</li>'' @ nl))"
proof -
  from missing_data_never_raises [OF set_semantics_example, of fm_empty "[(''A'', ''B'')]" 0]
  obtain g where g: "build_from_connections py_example fm_empty (map edge [(''A'', ''B'')]) = Inr g"
    and m: "\<forall>i \<in> ids_of [(''A'', ''B'')]. twin_instances fm_empty i = None \<longrightarrow>
               (\<exists>n. nodes g i = Some n \<and> nid n = i \<and> data n = empty_twin \<and>
                  (telemetry_data fm_empty i = None \<longrightarrow> targets_of [(''A'', ''B'')] i = [] \<longrightarrow>
                     render_node_html (Suc 0) py_example fm_empty (nodes g) i =
                       Some (Inr (node_markup py_example i (node_class_of py_example i (VStr []))
                         (model_name_of fm_empty n) (model_name_of fm_empty n) (VStr [])
                           @ ''</li>'' @ nl))))"
    by blast
  have "''B'' \<in> ids_of [(''A'', ''B'')]" by (simp add: ids_of_def)
  with m obtain n where "nodes g ''B'' = Some n"
    "render_node_html (Suc 0) py_example fm_empty (nodes g) ''B'' =
       Some (Inr (node_markup py_example ''B'' (node_class_of py_example ''B'' (VStr []))
          (model_name_of fm_empty n) (model_name_of fm_empty n) (VStr []) @ ''</li>'' @ nl))"
    by (auto simp: fm_empty_def targets_of_def)
  then have "render_node_html 1 py_example fm_empty (nodes g) ''B'' =
         Some (Inr (node_markup py_example ''B'' ''node'' ''Unknown'' ''Unknown'' (VStr [])
                      @ ''</li>'' @ nl))"
    by (simp add: node_class_of_def str_lower_example ascii_lower_def ascii_lower_char_def
        model_name_of_def fm_empty_def)
  with g show ?thesis by blast
qed

lemma render_node_one_child:
  assumes "st r = Some node" "render_open py fm node = Inr h" "children node = [c]"
    "render_node_html fuel py fm st c = Some (Inr hc)"
  shows "render_node_html (Suc fuel) py fm st r = Some (Inr (nested h hc))"
  using assms by (simp add: nested_def)

text \<open>
  Claim C5. For the edges (A,C), (B,C) between three different identifiers the store
  holds three nodes; A and B both have the
  child sequence [C], which refers to the one node of C; and when the three nodes render
  without error, the output holds the rendering of C once under A and once under B, the
  same text both times.
\<close>

theorem shared_child_rendered_twice:
  assumes "set_semantics py" and "distinct [a, b, c]"
  shows "\<exists>g. build_from_connections py fm (map edge (fan_in a b c)) = Inr g \<and>
           dom (nodes g) = {a, b, c} \<and> set (roots g) = {a, b} \<and>
           nodes g a = Some (built_node fm (fan_in a b c) a) \<and>
           nodes g b = Some (built_node fm (fan_in a b c) b) \<and>
           nodes g c = Some (built_node fm (fan_in a b c) c) \<and>
           children (built_node fm (fan_in a b c) a) = [c] \<and>
           children (built_node fm (fan_in a b c) b) = [c] \<and>
           children (built_node fm (fan_in a b c) c) = [] \<and>
           (\<forall>ha hb hc.
              render_open py fm (built_node fm (fan_in a b c) a) = Inr ha \<longrightarrow>
              render_open py fm (built_node fm (fan_in a b c) b) = Inr hb \<longrightarrow>
              render_open py fm (built_node fm (fan_in a b c) c) = Inr hc \<longrightarrow>
                render_node_html (Suc fuel) py fm (nodes g) c = Some (Inr (hc @ ''</li>'' @ nl)) \<and>
                render_node_html (Suc (Suc fuel)) py fm (nodes g) a =
                  Some (Inr (nested ha (hc @ ''</li>'' @ nl))) \<and>
                render_node_html (Suc (Suc fuel)) py fm (nodes g) b =
                  Some (Inr (nested hb (hc @ ''</li>'' @ nl))) \<and>
                (tree_html (Suc (Suc fuel)) py fm g =
                   Some (Inr (nested ha (hc @ ''</li>'' @ nl) @ nested hb (hc @ ''</li>'' @ nl))) \<or>
                 tree_html (Suc (Suc fuel)) py fm g =
                   Some (Inr (nested hb (hc @ ''</li>'' @ nl) @ nested ha (hc @ ''</li>'' @ nl)))))"
proof -
  let ?E = "fan_in a b c"
  from assms(2) have ab: "a \<noteq> b" and ac: "a \<noteq> c" and bc: "b \<noteq> c" by auto
  obtain g where g: "build_from_connections py fm (map edge ?E) = Inr g"
    and st: "nodes g = (\<lambda>i. if i \<in> ids_of ?E then Some (built_node fm ?E i) else None)"
    and d: "distinct (roots g)" and roots: "set (roots g) = ids_of ?E - snd ` set ?E"
    using build_edges [OF assms(1), of fm ?E] by blast
  have ids: "ids_of ?E = {a, b, c}" by (auto simp: ids_of_def fan_in_def)
  have dom: "dom (nodes g) = {a, b, c}" unfolding st ids by (auto split: if_splits)
  have rs: "set (roots g) = {a, b}" unfolding roots ids using ac bc by (auto simp: fan_in_def)
  have na: "nodes g a = Some (built_node fm ?E a)"
    and nb: "nodes g b = Some (built_node fm ?E b)"
    and nc: "nodes g c = Some (built_node fm ?E c)"
    unfolding st ids by simp_all
  have ca: "children (built_node fm ?E a) = [c]"
    and cb: "children (built_node fm ?E b) = [c]"
    and cc: "children (built_node fm ?E c) = []"
    using ab ac bc by (auto simp: built_node_def targets_of_def fan_in_def)
  have order: "roots g = [a, b] \<or> roots g = [b, a]"
    using d rs ab by (rule distinct_pair)
  have "render_node_html (Suc fuel) py fm (nodes g) c = Some (Inr (hc @ ''</li>'' @ nl)) \<and>
        render_node_html (Suc (Suc fuel)) py fm (nodes g) a =
          Some (Inr (nested ha (hc @ ''</li>'' @ nl))) \<and>
        render_node_html (Suc (Suc fuel)) py fm (nodes g) b =
          Some (Inr (nested hb (hc @ ''</li>'' @ nl))) \<and>
        (tree_html (Suc (Suc fuel)) py fm g =
           Some (Inr (nested ha (hc @ ''</li>'' @ nl) @ nested hb (hc @ ''</li>'' @ nl))) \<or>
         tree_html (Suc (Suc fuel)) py fm g =
           Some (Inr (nested hb (hc @ ''</li>'' @ nl) @ nested ha (hc @ ''</li>'' @ nl))))"
    if a: "render_open py fm (built_node fm ?E a) = Inr ha"
      and b: "render_open py fm (built_node fm ?E b) = Inr hb"
      and c: "render_open py fm (built_node fm ?E c) = Inr hc" for ha hb hc
  proof -
    have rc: "render_node_html (Suc fuel) py fm (nodes g) c = Some (Inr (hc @ ''</li>'' @ nl))"
      using nc cc c by simp
    have ra: "render_node_html (Suc (Suc fuel)) py fm (nodes g) a =
          Some (Inr (nested ha (hc @ ''</li>'' @ nl)))"
      using na a ca rc by (rule render_node_one_child)
    have rb: "render_node_html (Suc (Suc fuel)) py fm (nodes g) b =
          Some (Inr (nested hb (hc @ ''</li>'' @ nl)))"
      using nb b cb rc by (rule render_node_one_child)
    from order have "tree_html (Suc (Suc fuel)) py fm g =
           Some (Inr (nested ha (hc @ ''</li>'' @ nl) @ nested hb (hc @ ''</li>'' @ nl))) \<or>
         tree_html (Suc (Suc fuel)) py fm g =
           Some (Inr (nested hb (hc @ ''</li>'' @ nl) @ nested ha (hc @ ''</li>'' @ nl)))"
      unfolding tree_html_def using ra rb by (auto simp del: render_node_html.simps)
    with rc ra rb show ?thesis by blast
  qed
  with g dom rs na nb nc ca cb cc show ?thesis by blast
qed

text \<open>Claim C5 on the flow model with no twins.\<close>

theorem shared_child_rendered_twice_witness:
  "\<exists>g. build_from_connections py_example fm_empty (map edge (fan_in ''A'' ''B'' ''C'')) = Inr g \<and>
       map_option children (nodes g ''A'') = Some [''C''] \<and>
       map_option children (nodes g ''B'') = Some [''C''] \<and>
       dom (nodes g) = {''A'', ''B'', ''C''} \<and>
       (tree_html 2 py_example fm_empty g =
          Some (Inr (nested (node_markup py_example ''A'' ''node'' ''Unknown'' ''Unknown'' (VStr []))
                       (node_markup py_example ''C'' ''node'' ''Unknown'' ''Unknown'' (VStr [])
                          @ ''</li>'' @ nl) @
                     nested (node_markup py_example ''B'' ''node'' ''Unknown'' ''Unknown'' (VStr []))
                       (node_markup py_example ''C'' ''node'' ''Unknown'' ''Unknown'' (VStr [])
                          @ ''</li>'' @ nl))) \<or>
        tree_html 2 py_example fm_empty g =
          Some (Inr (nested (node_markup py_example ''B'' ''node'' ''Unknown'' ''Unknown'' (VStr []))
                       (node_markup py_example ''C'' ''node'' ''Unknown'' ''Unknown'' (VStr [])
                          @ ''</li>'' @ nl) @
                     nested (node_markup py_example ''A'' ''node'' ''Unknown'' ''Unknown'' (VStr []))
                       (node_markup py_example ''C'' ''node'' ''Unknown'' ''Unknown'' (VStr [])
                          @ ''</li>'' @ nl))))"
proof -
  have open_plain: "render_open py_example fm_empty (built_node fm_empty (fan_in ''A'' ''B'' ''C'') i) =
      Inr (node_markup py_example i (node_class_of py_example i (VStr [])) ''Unknown'' ''Unknown'' (VStr []))"
    for i
    by (simp add: render_open_def latest_telemetry_def tooltip_items_def tooltip_of_def
        dict_get_def empty_twin_def built_node_def twin_get_def fm_empty_def model_name_of_def
        model_id_of_def Let_def)
  have cls: "node_class_of py_example ''A'' (VStr []) = ''node''" "node_class_of py_example ''B'' (VStr []) = ''node''"
    "node_class_of py_example ''C'' (VStr []) = ''node''"
    by (simp_all add: node_class_of_def str_lower_example ascii_lower_def ascii_lower_char_def)
  have dist: "distinct [''A'', ''B'', ''C'']" by simp
  from shared_child_rendered_twice [OF set_semantics_example dist, of fm_empty 0]
  obtain g where g: "build_from_connections py_example fm_empty (map edge (fan_in ''A'' ''B'' ''C'')) = Inr g"
    "dom (nodes g) = {''A'', ''B'', ''C''}"
    "nodes g ''A'' = Some (built_node fm_empty (fan_in ''A'' ''B'' ''C'') ''A'')"
    "nodes g ''B'' = Some (built_node fm_empty (fan_in ''A'' ''B'' ''C'') ''B'')"
    "children (built_node fm_empty (fan_in ''A'' ''B'' ''C'') ''A'') = [''C'']"
    "children (built_node fm_empty (fan_in ''A'' ''B'' ''C'') ''B'') = [''C'']"
    and r: "\<forall>ha hb hc. render_open py_example fm_empty (built_node fm_empty (fan_in ''A'' ''B'' ''C'') ''A'') = Inr ha \<longrightarrow>
              render_open py_example fm_empty (built_node fm_empty (fan_in ''A'' ''B'' ''C'') ''B'') = Inr hb \<longrightarrow>
              render_open py_example fm_empty (built_node fm_empty (fan_in ''A'' ''B'' ''C'') ''C'') = Inr hc \<longrightarrow>
                render_node_html (Suc 0) py_example fm_empty (nodes g) ''C'' = Some (Inr (hc @ ''</li>'' @ nl)) \<and>
                render_node_html (Suc (Suc 0)) py_example fm_empty (nodes g) ''A'' =
                  Some (Inr (nested ha (hc @ ''</li>'' @ nl))) \<and>
                render_node_html (Suc (Suc 0)) py_example fm_empty (nodes g) ''B'' =
                  Some (Inr (nested hb (hc @ ''</li>'' @ nl))) \<and>
                (tree_html (Suc (Suc 0)) py_example fm_empty g =
                   Some (Inr (nested ha (hc @ ''</li>'' @ nl) @ nested hb (hc @ ''</li>'' @ nl))) \<or>
                 tree_html (Suc (Suc 0)) py_example fm_empty g =
                   Some (Inr (nested hb (hc @ ''</li>'' @ nl) @ nested ha (hc @ ''</li>'' @ nl))))"
    by blast
  have two: "Suc (Suc 0) = 2" by simp
  from r open_plain [of "''A''"] open_plain [of "''B''"] open_plain [of "''C''"]
  have "tree_html 2 py_example fm_empty g =
          Some (Inr (nested (node_markup py_example ''A'' ''node'' ''Unknown'' ''Unknown'' (VStr []))
                       (node_markup py_example ''C'' ''node'' ''Unknown'' ''Unknown'' (VStr [])
                          @ ''</li>'' @ nl) @
                     nested (node_markup py_example ''B'' ''node'' ''Unknown'' ''Unknown'' (VStr []))
                       (node_markup py_example ''C'' ''node'' ''Unknown'' ''Unknown'' (VStr [])
                          @ ''</li>'' @ nl))) \<or>
        tree_html 2 py_example fm_empty g =
          Some (Inr (nested (node_markup py_example ''B'' ''node'' ''Unknown'' ''Unknown'' (VStr []))
                       (node_markup py_example ''C'' ''node'' ''Unknown'' ''Unknown'' (VStr [])
                          @ ''</li>'' @ nl) @
                     nested (node_markup py_example ''A'' ''node'' ''Unknown'' ''Unknown'' (VStr []))
                       (node_markup py_example ''C'' ''node'' ''Unknown'' ''Unknown'' (VStr [])
                          @ ''</li>'' @ nl)))"
    unfolding cls two by blast
  with g show ?thesis by (intro exI [of _ g]) simp
qed

end
